theory Spec2Isabelle
  imports Main "HOL-Library.Word"
begin

section \<open>JavaScript strings\<close>

text \<open>
  A JavaScript string is a sequence of UTF-16 code units. \<open>js\<close> writes an ASCII
  literal as such a string.
\<close>

type_synonym jschar = "16 word"
type_synonym jsstring = "jschar list"

definition js :: "string \<Rightarrow> jsstring" where
  "js s = map of_char s"

subsection \<open>Character classes of the regular expressions\<close>

text \<open>\<open>\w\<close> without the \<open>i\<close> and \<open>u\<close> flags: \<open>[A-Za-z0-9_]\<close>.\<close>

definition is_word :: "jschar \<Rightarrow> bool" where
  "is_word c \<longleftrightarrow>
     (0x41 \<le> c \<and> c \<le> 0x5A) \<or> (0x61 \<le> c \<and> c \<le> 0x7A) \<or>
     (0x30 \<le> c \<and> c \<le> 0x39) \<or> c = 0x5F"

text \<open>The class \<open>[\w\.\-]\<close> of the key.\<close>

definition is_key :: "jschar \<Rightarrow> bool" where
  "is_key c \<longleftrightarrow> is_word c \<or> c = 0x2E \<or> c = 0x2D"

text \<open>
  \<open>\s\<close>: the ECMAScript WhiteSpace and LineTerminator code points (TAB, LF, VT, FF, CR,
  SP, NBSP, U+1680, U+2000 to U+200A, LS, PS, U+202F, U+205F, U+3000 and the BOM U+FEFF).
\<close>

definition is_space :: "jschar \<Rightarrow> bool" where
  "is_space c \<longleftrightarrow>
     c = 0x09 \<or> c = 0x0A \<or> c = 0x0B \<or> c = 0x0C \<or> c = 0x0D \<or> c = 0x20 \<or> c = 0xA0 \<or>
     c = 0x1680 \<or> (0x2000 \<le> c \<and> c \<le> 0x200A) \<or> c = 0x2028 \<or> c = 0x2029 \<or>
     c = 0x202F \<or> c = 0x205F \<or> c = 0x3000 \<or> c = 0xFEFF"

text \<open>\<open>.\<close> without the \<open>s\<close> flag: any code unit but the line terminators LF, CR, LS, PS.\<close>

definition is_dot :: "jschar \<Rightarrow> bool" where
  "is_dot c \<longleftrightarrow> c \<noteq> 0x0A \<and> c \<noteq> 0x0D \<and> c \<noteq> 0x2028 \<and> c \<noteq> 0x2029"

text \<open>The class \<open>['"]\<close>.\<close>

definition is_quote :: "jschar \<Rightarrow> bool" where
  "is_quote c \<longleftrightarrow> c = 0x27 \<or> c = 0x22"

subsection \<open>A backtracking matcher for the pieces of the patterns\<close>

text \<open>
  The matcher is written in continuation style, as ECMAScript specifies it: a piece of a
  pattern receives the rest of the pattern as a continuation \<open>k\<close>, and backtracks into
  its own alternatives when the continuation fails (\<open>None\<close>).

  \<open>star p k acc s\<close> is the greedy \<open>p*\<close>: it consumes code units of class \<open>p\<close> from
  \<open>s\<close>, the longest run first, and hands the consumed text (after \<open>acc\<close>) and the rest
  to \<open>k\<close>; when \<open>k\<close> fails it gives one code unit back and tries again.
\<close>

fun star :: "(jschar \<Rightarrow> bool) \<Rightarrow> (jsstring \<Rightarrow> jsstring \<Rightarrow> 'r option) \<Rightarrow>
    jsstring \<Rightarrow> jsstring \<Rightarrow> 'r option" where
  "star p k acc [] = k acc []"
| "star p k acc (c # cs) =
     (if p c then
        (case star p k (acc @ [c]) cs of
           Some r \<Rightarrow> Some r
         | None \<Rightarrow> k acc (c # cs))
      else k acc (c # cs))"

text \<open>\<open>p+\<close>: one code unit of the class, then \<open>p*\<close>.\<close>

definition plus_cls :: "(jschar \<Rightarrow> bool) \<Rightarrow> (jsstring \<Rightarrow> jsstring \<Rightarrow> 'r option) \<Rightarrow>
    jsstring \<Rightarrow> 'r option" where
  "plus_cls p k s =
     (case s of
        [] \<Rightarrow> None
      | c # cs \<Rightarrow> if p c then star p k [c] cs else None)"

text \<open>A single literal code unit.\<close>

definition lit :: "jschar \<Rightarrow> (jsstring \<Rightarrow> 'r option) \<Rightarrow> jsstring \<Rightarrow> 'r option" where
  "lit ch k s =
     (case s of
        [] \<Rightarrow> None
      | c # cs \<Rightarrow> if c = ch then k cs else None)"

text \<open>
  \<open>(p*)?\<close>: the greedy optional group. The group is tried first; an iteration of the
  group that consumes nothing is rejected (the empty check of ECMAScript's
  RepeatMatcher), and then, as after any failure inside the group, the pattern goes on
  with the group unset (\<open>None\<close>, JavaScript's \<open>undefined\<close>).
\<close>

definition opt_group :: "(jschar \<Rightarrow> bool) \<Rightarrow> (jsstring option \<Rightarrow> jsstring \<Rightarrow> 'r option) \<Rightarrow>
    jsstring \<Rightarrow> 'r option" where
  "opt_group p k s =
     (case star p (\<lambda>v rest. if v = [] then None else k (Some v) rest) [] s of
        Some r \<Rightarrow> Some r
      | None \<Rightarrow> k None s)"

text \<open>\<open>$\<close> without the \<open>m\<close> flag: the end of the string.\<close>

definition at_end :: "'r \<Rightarrow> jsstring \<Rightarrow> 'r option" where
  "at_end r s = (if s = [] then Some r else None)"

section \<open>The environment file parser\<close>

text \<open>
  The interface \<open>Environment\<close> (its field \<open>value\<close> is written \<open>val\<close> here) and the class
  \<open>ParsedEnvironmentFile\<close>, whose \<open>Warning\<close> is a string or \<open>null\<close>.
\<close>

record Environment =
  name :: jsstring
  val :: jsstring

record ParsedEnvironmentFile =
  Env :: "Environment list"
  Warning :: "jsstring option"

subsection \<open>The patterns\<close>

text \<open>
  \<open>line.match(/^\s*([\w\.\-]+)\s*=\s*(.*)?\s*$/)\<close>: \<open>None\<close> is \<open>null\<close>; a match gives
  the two groups \<open>r[1]\<close> and \<open>r[2]\<close>, the second possibly unset. The pattern is anchored
  at the start, so the only attempt is at index 0.
\<close>

definition line_match :: "jsstring \<Rightarrow> (jsstring \<times> jsstring option) option" where
  "line_match line =
     star is_space (\<lambda>_.
       plus_cls is_key (\<lambda>key.
         star is_space (\<lambda>_.
           lit 0x3D (
             star is_space (\<lambda>_.
               opt_group is_dot (\<lambda>g.
                 star is_space (\<lambda>_. at_end (key, g)) [])) [])) [])) [] line"

text \<open>\<open>new RegExp(/^\s*(#|$)/).test(line)\<close>.\<close>

definition comments_test :: "jsstring \<Rightarrow> bool" where
  "comments_test line \<longleftrightarrow>
     star is_space (\<lambda>_ s.
       case lit 0x23 (\<lambda>_. Some ()) s of
         Some r \<Rightarrow> Some r
       | None \<Rightarrow> at_end () s) [] line \<noteq> None"

subsection \<open>Post-processing of the value\<close>

text \<open>\<open>value.replace(/\\n/gm, "\n")\<close>: every backslash followed by \<open>n\<close>, from the left.\<close>

fun replace_backslash_n :: "jsstring \<Rightarrow> jsstring" where
  "replace_backslash_n (a # b # cs) =
     (if a = 0x5C \<and> b = 0x6E then 0x0A # replace_backslash_n cs
      else a # replace_backslash_n (b # cs))"
| "replace_backslash_n cs = cs"

text \<open>
  \<open>value.replace(/(^['"]|['"]$)/g, "")\<close>: the scan over the positions of the string; the
  flag says whether the position is the start of the string. A quote is removed where
  it stands at the start (\<open>^['"]\<close>) or right before the end (\<open>['"]$\<close>).
\<close>

fun strip_quotes_from :: "bool \<Rightarrow> jsstring \<Rightarrow> jsstring" where
  "strip_quotes_from at_start [] = []"
| "strip_quotes_from at_start (c # cs) =
     (if is_quote c \<and> (at_start \<or> cs = []) then strip_quotes_from False cs
      else c # strip_quotes_from False cs)"

definition strip_quotes :: "jsstring \<Rightarrow> jsstring" where
  "strip_quotes v = strip_quotes_from True v"

text \<open>The body of the \<open>if (r !== null)\<close> branch up to \<open>env.set\<close>: the value that is stored.\<close>

definition process_value :: "jsstring option \<Rightarrow> jsstring" where
  "process_value g =
     (let v = (case g of None \<Rightarrow> [] | Some v \<Rightarrow> v);
          v = (if length v > 0 \<and> v ! 0 = 0x22 \<and> v ! (length v - 1) = 0x22
               then replace_backslash_n v else v)
      in strip_quotes v)"

subsection \<open>The map\<close>

text \<open>
  A JavaScript \<open>Map\<close> iterates its keys in insertion order, and \<open>set\<close> on a key it holds
  replaces the value where the key stands: an association list with distinct keys.
\<close>

type_synonym jsmap = "(jsstring \<times> jsstring) list"

fun map_set :: "jsstring \<Rightarrow> jsstring \<Rightarrow> jsmap \<Rightarrow> jsmap" where
  "map_set k v [] = [(k, v)]"
| "map_set k v ((k', v') # m) =
     (if k' = k then (k', v) # m else (k', v') # map_set k v m)"

subsection \<open>CreateFromContent\<close>

text \<open>Removal of the byte-order mark.\<close>

definition strip_bom :: "jsstring \<Rightarrow> jsstring" where
  "strip_bom content =
     (case content of
        [] \<Rightarrow> []
      | c # cs \<Rightarrow> if c = 0xFEFF then cs else content)"

text \<open>\<open>content.split("\n")\<close>; the result is never empty (the last case cannot occur).\<close>

fun split_lines :: "jsstring \<Rightarrow> jsstring list" where
  "split_lines [] = [[]]"
| "split_lines (c # cs) =
     (if c = 0x0A then [] # split_lines cs
      else (case split_lines cs of
              l # ls \<Rightarrow> (c # l) # ls
            | [] \<Rightarrow> [[c]]))"

text \<open>The seeding of the map from \<open>initialEnv\<close> (\<open>None\<close> is \<open>undefined\<close>).\<close>

definition initial_map :: "Environment list option \<Rightarrow> jsmap" where
  "initial_map initialEnv =
     (case initialEnv of
        None \<Rightarrow> []
      | Some es \<Rightarrow> foldl (\<lambda>env e. map_set (name e) (val e) env) [] es)"

text \<open>The body of \<open>forEach(line => ...)\<close>, on the pair of \<open>env\<close> and \<open>parseErrors\<close>.\<close>

definition process_line :: "jsmap \<times> jsstring list \<Rightarrow> jsstring \<Rightarrow> jsmap \<times> jsstring list" where
  "process_line st line =
     (case line_match line of
        Some (key, g) \<Rightarrow> (map_set key (process_value g) (fst st), snd st)
      | None \<Rightarrow>
          if \<not> comments_test line then (fst st, snd st @ [line]) else st)"

text \<open>
  The loop that appends the quoted lines to the warning: every line but the last is
  followed by a comma and a space, the last by a period.
\<close>

fun warning_items :: "jsstring list \<Rightarrow> jsstring" where
  "warning_items [] = []"
| "warning_items (l # ls) =
     [0x22] @ l @ [0x22] @ (if ls \<noteq> [] then js '', '' else js ''.'') @ warning_items ls"

text \<open>
  \<open>localize\<close> is the message bundle of vscode-nls, which is not part of the sources: it
  is a parameter, the function from the file name to the localized head of the warning
  (in the default bundle \<open>Ignoring non-parseable lines in envFile <file>: \<close>).
\<close>

definition CreateFromContent ::
    "(jsstring \<Rightarrow> jsstring) \<Rightarrow> jsstring \<Rightarrow> jsstring \<Rightarrow> Environment list option \<Rightarrow>
     ParsedEnvironmentFile" where
  "CreateFromContent localize content envFile initialEnv =
     (let content = strip_bom content;
          (env, parseErrors) =
             foldl process_line (initial_map initialEnv, []) (split_lines content);
          warning =
             (if length parseErrors \<noteq> 0
              then Some (localize envFile @ warning_items parseErrors)
              else None);
          arrayEnv = map (\<lambda>(key, v). \<lparr>name = key, val = v\<rparr>) env
      in \<lparr>Env = arrayEnv, Warning = warning\<rparr>)"

subsection \<open>The line pattern without backtracking\<close>

text \<open>
  What the line pattern computes, read off greedily from the left: skip white space, take
  the longest key, skip white space, the equals sign, skip white space, take the longest
  run without a line terminator, and accept when only white space is left. It is shown
  below to agree with \<open>line_match\<close> on every line.
\<close>

definition group_of :: "jsstring \<Rightarrow> jsstring option" where
  "group_of v = (if v = [] then None else Some v)"

definition scan_line :: "jsstring \<Rightarrow> (jsstring \<times> jsstring option) option" where
  "scan_line line =
     (let s1 = dropWhile is_space line;
          key = takeWhile is_key s1;
          s3 = dropWhile is_space (dropWhile is_key s1)
      in case s3 of
           [] \<Rightarrow> None
         | c # s4 \<Rightarrow>
             if key \<noteq> [] \<and> c = 0x3D then
               (let s5 = dropWhile is_space s4 in
                  if list_all is_space (dropWhile is_dot s5)
                  then Some (key, group_of (takeWhile is_dot s5))
                  else None)
             else None)"

subsection \<open>The grammar of a line, as the specification words it\<close>

text \<open>
  A line has the shape \<open><whitespace>* <key> <whitespace>* = <whitespace>* <value>? <whitespace>*\<close>
  with a key of one or more word characters, dots or hyphens; the value is text of the
  line (no line terminator). A line is blank when it is white space only, and a comment
  when it is optional white space followed by \<open>#\<close>.
\<close>

definition matches_grammar :: "jsstring \<Rightarrow> bool" where
  "matches_grammar line \<longleftrightarrow>
     (\<exists>w1 key w2 w3 v w4.
        line = w1 @ key @ w2 @ [0x3D] @ w3 @ v @ w4 \<and>
        list_all is_space w1 \<and> key \<noteq> [] \<and> list_all is_key key \<and> list_all is_space w2 \<and>
        list_all is_space w3 \<and> list_all is_dot v \<and> list_all is_space w4)"

definition is_blank :: "jsstring \<Rightarrow> bool" where
  "is_blank line \<longleftrightarrow> list_all is_space line"

definition is_comment :: "jsstring \<Rightarrow> bool" where
  "is_comment line \<longleftrightarrow> (\<exists>w rest. line = w @ [0x23] @ rest \<and> list_all is_space w)"

subsection \<open>Notions of the specification\<close>

text \<open>
  The lines of the text are those of the content once the byte-order mark is removed,
  as \<open>CreateFromContent\<close> splits them.
\<close>

definition file_lines :: "jsstring \<Rightarrow> jsstring list" where
  "file_lines content = split_lines (strip_bom content)"

text \<open>A line wrapped in double quotes, and the items of a list joined by a separator.\<close>

definition quoted :: "jsstring \<Rightarrow> jsstring" where
  "quoted l = [0x22] @ l @ [0x22]"

fun join_with :: "jsstring \<Rightarrow> jsstring list \<Rightarrow> jsstring" where
  "join_with sep [] = []"
| "join_with sep [x] = x"
| "join_with sep (x # y # ys) = x @ sep @ join_with sep (y # ys)"

text \<open>The lines that are neither blank, nor comments, nor of the grammar, in file order.\<close>

definition unparseable_lines :: "jsstring \<Rightarrow> jsstring list" where
  "unparseable_lines content =
     filter (\<lambda>l. \<not> is_blank l \<and> \<not> is_comment l \<and> \<not> matches_grammar l) (file_lines content)"

text \<open>
  The assignments of the file, in file order: one for each line the pattern matches, with
  the value that is stored.
\<close>

definition assignments :: "jsstring list \<Rightarrow> (jsstring \<times> jsstring) list" where
  "assignments ls =
     List.map_filter (\<lambda>l. case line_match l of
                             None \<Rightarrow> None
                           | Some (key, g) \<Rightarrow> Some (key, process_value g)) ls"

text \<open>The baseline entries as pairs.\<close>

definition baseline :: "Environment list option \<Rightarrow> (jsstring \<times> jsstring) list" where
  "baseline initialEnv =
     (case initialEnv of None \<Rightarrow> [] | Some es \<Rightarrow> map (\<lambda>e. (name e, val e)) es)"

text \<open>Every element once, at the position of its first occurrence.\<close>

definition first_seen :: "'a list \<Rightarrow> 'a list" where
  "first_seen xs = rev (remdups (rev xs))"

text \<open>One \<open>env.set\<close> for a pair.\<close>

definition set_entry :: "jsmap \<Rightarrow> jsstring \<times> jsstring \<Rightarrow> jsmap" where
  "set_entry m kv = map_set (fst kv) (snd kv) m"

text \<open>
  The post-processing of a value as the specification words it: a value wrapped in a
  matching pair of double quotes, the removal of one leading and one trailing quote, the
  presence of a backslash followed by \<open>n\<close>, and the two steps in order.
\<close>

definition wrapped_in_double_quotes :: "jsstring \<Rightarrow> bool" where
  "wrapped_in_double_quotes v \<longleftrightarrow> 2 \<le> length v \<and> hd v = 0x22 \<and> last v = 0x22"

definition strip_one_quote_each_end :: "jsstring \<Rightarrow> jsstring" where
  "strip_one_quote_each_end v =
     (let v1 = (if v \<noteq> [] \<and> is_quote (hd v) then tl v else v)
      in if v1 \<noteq> [] \<and> is_quote (last v1) then butlast v1 else v1)"

definition has_backslash_n :: "jsstring \<Rightarrow> bool" where
  "has_backslash_n v \<longleftrightarrow> (\<exists>a b. v = a @ [0x5C, 0x6E] @ b)"

definition post_processed :: "jsstring \<Rightarrow> jsstring" where
  "post_processed raw =
     strip_one_quote_each_end
       (if wrapped_in_double_quotes raw then replace_backslash_n raw else raw)"

text \<open>\<open>r[2] || ""\<close>: the text of the second group, empty when the group is unset.\<close>

definition group_text :: "jsstring option \<Rightarrow> jsstring" where
  "group_text g = (case g of None \<Rightarrow> [] | Some v \<Rightarrow> v)"

subsection \<open>Writing the entries back\<close>

text \<open>
  The specification speaks of the entry list formatted back as \<open>KEY=VALUE\<close> lines, up to
  quoting. No source file formats an entry list, so the formatting is modelled here from
  these words: every value is written between quotes. A value that holds a newline is
  written between double quotes with each newline as a backslash and the letter n, which
  is what the parser turns back into a newline between double quotes; any other value is
  written between single quotes, between which the parser replaces nothing.
\<close>

text \<open>
  Modelled from the spec: the escaping of the newlines of a value, which no source file
  implements. Each newline becomes a backslash and the letter n.
\<close>

fun escape_newlines :: "jsstring \<Rightarrow> jsstring" where
  "escape_newlines [] = []"
| "escape_newlines (c # cs) =
     (if c = 0x0A then 0x5C # 0x6E # escape_newlines cs else c # escape_newlines cs)"

text \<open>
  Modelled from the spec: the quoting of a value, which no source file implements. A value
  with a newline goes between double quotes with its newlines escaped, any other value
  between single quotes.
\<close>

definition quote_value :: "jsstring \<Rightarrow> jsstring" where
  "quote_value v =
     (if 0x0A \<in> set v then [0x22] @ escape_newlines v @ [0x22] else [0x27] @ v @ [0x27])"

text \<open>
  Modelled from the spec: an entry as a \<open>KEY=VALUE\<close> line, which no source file implements:
  the name, an equals sign and the quoted value.
\<close>

definition format_entry :: "Environment \<Rightarrow> jsstring" where
  "format_entry e = name e @ [0x3D] @ quote_value (val e)"

text \<open>
  Modelled from the spec: the entry list formatted back as \<open>KEY=VALUE\<close> lines, which no
  source file implements: the lines of the entries, joined by newlines.
\<close>

definition format_env :: "Environment list \<Rightarrow> jsstring" where
  "format_env es = join_with [0x0A] (map format_entry es)"

text \<open>The entry of a pair of the map.\<close>

definition entry_of :: "jsstring \<times> jsstring \<Rightarrow> Environment" where
  "entry_of kv = \<lparr>name = fst kv, val = snd kv\<rparr>"

text \<open>
  What holds of every value that the parser stores: it has no carriage return, line
  separator or paragraph separator, and when it has a newline, which only the
  replacement between double quotes produces, no backslash followed by the letter n is
  left in it.
\<close>

definition emitted_value :: "jsstring \<Rightarrow> bool" where
  "emitted_value v \<longleftrightarrow>
     list_all (\<lambda>c. c \<noteq> 0x0D \<and> c \<noteq> 0x2028 \<and> c \<noteq> 0x2029) v \<and>
     (if 0x0A \<in> set v then \<not> has_backslash_n v else True)"

section \<open>The update orchestrator\<close>

text \<open>
  A promise, by what becomes of it: it stays pending for ever, is fulfilled with a value,
  or is rejected with an error.
\<close>

datatype ('a, 'e) promise = Pending | Resolved 'a | Rejected 'e

subsection \<open>installVsix\<close>

text \<open>
  What the host and the platform give to \<open>installVsix\<close>: the two comparisons of the
  version of the host (\<open>PackageVersion\<close> is not part of the sources), the outcome of the
  host command \<open>workbench.extensions.installExtension\<close>, the outcome of
  \<open>PlatformInformation.GetPlatformInformation\<close>, the path of the script that is found
  (\<open>None\<close> is \<open>undefined\<close>), and what \<open>spawn\<close> does.
\<close>

datatype spawn_result = SpawnThrows | NoPid | Spawned

record InstallHost =
  newer_than_1_32_3 :: bool
  newer_than_1_27_2 :: bool
  installExtension :: "(unit, string) promise"
  platformInformation :: "(unit, string) promise"
  vsCodeScriptPath :: "string option"
  spawned :: spawn_result

datatype install_error =
    HostError string
  | FailedToFindScript
  | FailedToLaunch
  | NoResponseWithin30s
  | ExitedWithCode "int option"

text \<open>
  What happens after the launch, in the order of time: the process exits with a code
  (\<open>None\<close> is \<open>null\<close>), the process writes to its standard output, and the 30000 ms of
  \<open>setTimeout\<close> have passed.
\<close>

datatype event = Exit "int option" | StdoutData | Timeout

text \<open>
  The state of one call: the promise; whether the timer is set and not cleared; whether
  a listener is registered; whether \<open>process.kill()\<close> was called; the flag
  \<open>sentOverride\<close>; and what was written to the standard input of the process.
\<close>

record Install =
  outcome :: "(unit, install_error) promise"
  timer :: bool
  listening :: bool
  killed :: bool
  sentOverride :: bool
  stdin :: "string list"

definition idle :: Install where
  "idle = \<lparr>outcome = Pending, timer = False, listening = False, killed = False,
            sentOverride = False, stdin = []\<rparr>"

text \<open>\<open>resolve\<close> and \<open>reject\<close> settle a promise once; later calls do nothing.\<close>

definition settle :: "(unit, install_error) promise \<Rightarrow> Install \<Rightarrow> Install" where
  "settle p s = (if outcome s = Pending then s\<lparr>outcome := p\<rparr> else s)"

text \<open>The callback of \<open>setTimeout\<close>; a timer that was cleared or has fired does not fire.\<close>

definition on_timeout :: "Install \<Rightarrow> Install" where
  "on_timeout s =
     (if timer s then settle (Rejected NoResponseWithin30s) (s\<lparr>timer := False, killed := True\<rparr>)
      else s)"

text \<open>
  Hosts newer than 1.27.2: inside the \<open>try\<close>, \<open>spawn\<close>, then the timer, then the listener
  for \<open>exit\<close>, then the test of the pid.
\<close>

definition launch_exit_code :: "spawn_result \<Rightarrow> Install" where
  "launch_exit_code sp =
     (case sp of
        SpawnThrows \<Rightarrow> settle (Rejected FailedToLaunch) idle
      | NoPid \<Rightarrow> settle (Rejected FailedToLaunch) (idle\<lparr>timer := True, listening := True\<rparr>)
      | Spawned \<Rightarrow> idle\<lparr>timer := True, listening := True\<rparr>)"

definition on_event_exit_code :: "Install \<Rightarrow> event \<Rightarrow> Install" where
  "on_event_exit_code s ev =
     (case ev of
        Timeout \<Rightarrow> on_timeout s
      | Exit code \<Rightarrow>
          if listening s then
            (if code \<noteq> Some 0 then settle (Rejected (ExitedWithCode code)) (s\<lparr>timer := False\<rparr>)
             else settle (Resolved ()) (s\<lparr>timer := False\<rparr>))
          else s
      | StdoutData \<Rightarrow> s)"

text \<open>
  Hosts up to 1.27.2: \<open>spawn\<close> and the test of the pid inside the \<open>try\<close>, with \<open>return\<close>
  after the rejection; then the timer and the listener for the data of the standard
  output.
\<close>

definition launch_std_streams :: "spawn_result \<Rightarrow> Install" where
  "launch_std_streams sp =
     (case sp of
        SpawnThrows \<Rightarrow> settle (Rejected FailedToLaunch) idle
      | NoPid \<Rightarrow> settle (Rejected FailedToLaunch) idle
      | Spawned \<Rightarrow> idle\<lparr>timer := True, listening := True\<rparr>)"

definition on_event_std_streams :: "Install \<Rightarrow> event \<Rightarrow> Install" where
  "on_event_std_streams s ev =
     (case ev of
        Timeout \<Rightarrow> on_timeout s
      | StdoutData \<Rightarrow>
          if listening s then
            (if sentOverride s then s
             else settle (Resolved ())
                    (s\<lparr>stdin := stdin s @ [''0'' @ [CHR 0x0A]], sentOverride := True,
                       timer := False\<rparr>))
          else s
      | Exit code \<Rightarrow> s)"

definition map_error :: "('e \<Rightarrow> 'f) \<Rightarrow> ('a, 'e) promise \<Rightarrow> ('a, 'f) promise" where
  "map_error f p = (case p of Pending \<Rightarrow> Pending | Resolved a \<Rightarrow> Resolved a | Rejected e \<Rightarrow> Rejected (f e))"

text \<open>\<open>installVsix\<close>, and the events that follow the call.\<close>

definition installVsix :: "InstallHost \<Rightarrow> event list \<Rightarrow> Install" where
  "installVsix h evs =
     (if newer_than_1_32_3 h then idle\<lparr>outcome := map_error HostError (installExtension h)\<rparr>
      else
        (case platformInformation h of
           Pending \<Rightarrow> idle
         | Rejected e \<Rightarrow> idle\<lparr>outcome := Rejected (HostError e)\<rparr>
         | Resolved _ \<Rightarrow>
             (case vsCodeScriptPath h of
                None \<Rightarrow> idle\<lparr>outcome := Rejected FailedToFindScript\<rparr>
              | Some path \<Rightarrow>
                  if newer_than_1_27_2 h
                  then foldl on_event_exit_code (launch_exit_code (spawned h)) evs
                  else foldl on_event_std_streams (launch_std_streams (spawned h)) evs)))"

text \<open>
  The events that decide a call, by the variant of the host: the exit of the process or
  the first data of its standard output, and the timer.
\<close>

definition decisive :: "InstallHost \<Rightarrow> event \<Rightarrow> bool" where
  "decisive h ev =
     (case ev of
        Timeout \<Rightarrow> True
      | Exit _ \<Rightarrow> newer_than_1_27_2 h
      | StdoutData \<Rightarrow> \<not> newer_than_1_27_2 h)"

text \<open>What the first decisive event makes of the promise.\<close>

definition decision :: "event option \<Rightarrow> (unit, install_error) promise" where
  "decision d =
     (case d of
        None \<Rightarrow> Pending
      | Some Timeout \<Rightarrow> Rejected NoResponseWithin30s
      | Some (Exit code) \<Rightarrow>
          if code = Some 0 then Resolved () else Rejected (ExitedWithCode code)
      | Some StdoutData \<Rightarrow> Resolved ())"

subsection \<open>applyUpdate and checkAndApplyUpdate\<close>

text \<open>The build descriptor of the feed (its field \<open>name\<close> is written \<open>build_name\<close> here).\<close>

record BuildInfo =
  build_name :: string
  downloadUrl :: string

text \<open>
  The values a promise is rejected with, by what the handlers of the cycle do with them:
  an \<open>Error\<close> object with its message; the value \<open>undefined\<close>, of which no property can be
  read; and any other value without a property \<open>message\<close> (a string, a number, a plain
  object), for which \<open>error.message\<close> is \<open>undefined\<close>. Reading a property of \<open>undefined\<close>
  throws a \<open>TypeError\<close>, which is an \<open>Error\<close> object; its message is worded as the V8 of
  these hosts words it.
\<close>

datatype thrown = Error string | Undefined | NoMessage

definition TypeError :: "string \<Rightarrow> thrown" where
  "TypeError property =
     Error (''Cannot read property '' @ [CHR 0x27] @ property @ [CHR 0x27] @ '' of undefined'')"

text \<open>
  What one update cycle does that can be observed from outside, in order: the calls of
  the collaborators and the settling of the promise that \<open>new Promise\<close> creates.
\<close>

datatype action =
    DownloadFile string  \<comment> \<open>\<open>util.downloadFileToDestination(buildInfo.downloadUrl, vsixPath)\<close>\<close>
  | ConfigUpdate "string option"  \<comment> \<open>\<open>config.update('http.proxySupport', v, true)\<close>\<close>
  | InstallVsix  \<comment> \<open>\<open>installVsix(vsixPath)\<close>\<close>
  | ClearInterval  \<comment> \<open>\<open>clearInterval(insiderUpdateTimer)\<close>\<close>
  | PromptReloadWindow string  \<comment> \<open>\<open>util.promptReloadWindow(message)\<close>\<close>
  | LogEvent "string option" bool
      \<comment> \<open>\<open>telemetry.logLanguageServerEvent('installVsix', ...)\<close>: the error, the success\<close>
  | ConsoleError string  \<comment> \<open>\<open>console.error\<close>\<close>
  | Reject thrown  \<comment> \<open>\<open>reject(error)\<close>\<close>
  | ResolveVoid  \<comment> \<open>\<open>resolve()\<close>\<close>

text \<open>
  The collaborators of a cycle, which are not part of the sources, are parameters:
  whether \<open>tmp.file\<close> calls back with an error; the outcome of the n-th call of
  \<open>util.downloadFileToDestination\<close>; what \<open>config.get('http.proxySupport')\<close> returns while
  the user-level value of the setting is the given one; how many of the writes that
  \<open>config.update\<close> has requested take effect while the cycle waits for the n-th time;
  the outcome of \<open>installVsix\<close>; and the outcome of \<open>getTargetBuildInfo\<close> for a channel
  (\<open>None\<close> is \<open>undefined\<close>).
\<close>

record Host =
  tmp_file_err :: bool
  download :: "nat \<Rightarrow> (unit, thrown) promise"
  config_get :: "string option \<Rightarrow> string option"
  writes_applied :: "nat \<Rightarrow> nat"
  installVsix_result :: "(unit, thrown) promise"
  getTargetBuildInfo :: "string option \<Rightarrow> (BuildInfo option, thrown) promise"

text \<open>
  The state of a cycle: the user-level value of \<open>http.proxySupport\<close> that is in effect,
  which is what \<open>config.inspect('http.proxySupport').globalValue\<close> reads; the writes that
  were requested and are not in effect yet, the oldest first; how many times the cycle
  has waited at an \<open>await\<close>; the number of downloads started; and the actions so far.
\<close>

record Cycle =
  proxySupport :: "string option"
  requested :: "string option list"
  awaits :: nat
  attempts :: nat
  trace :: "action list"

text \<open>
  \<open>config.update('http.proxySupport', v, true)\<close> returns a \<open>Thenable\<close> that the cycle drops:
  the write is requested, and the cycle goes on without waiting for it.
\<close>

definition config_update :: "string option \<Rightarrow> Cycle \<Rightarrow> Cycle" where
  "config_update v s = s\<lparr>requested := requested s @ [v], trace := trace s @ [ConfigUpdate v]\<rparr>"

text \<open>
  An \<open>await\<close>: the cycle is suspended, and only then can requested writes take effect, in
  the order of the requests and as many as the host gets done.
\<close>

definition wait :: "Host \<Rightarrow> Cycle \<Rightarrow> Cycle" where
  "wait h s =
     (let done = take (writes_applied h (awaits s)) (requested s) in
      s\<lparr>proxySupport := (if done = [] then proxySupport s else last done),
        requested := drop (writes_applied h (awaits s)) (requested s),
        awaits := Suc (awaits s)\<rparr>)"

datatype loop_exit = Downloaded | Failed string | Stuck

text \<open>
  The \<open>while (true)\<close> loop around the download. It is left by \<open>break\<close> (\<open>Downloaded\<close>), by
  \<open>reject\<close> and \<open>return\<close> (\<open>Failed\<close>), or never when the download does not settle
  (\<open>Stuck\<close>); \<open>continue\<close> is the recursive call. Nothing bounds the number of iterations:
  the first argument is the number of iterations allowed, and the result is \<open>None\<close> when
  the loop has not been left within them.
\<close>

fun download_loop :: "nat \<Rightarrow> Host \<Rightarrow> BuildInfo \<Rightarrow> string option \<Rightarrow> Cycle \<Rightarrow>
    (loop_exit \<times> Cycle) option" where
  "download_loop 0 h buildInfo originalProxySupport s = None"
| "download_loop (Suc fuel) h buildInfo originalProxySupport s =
     (let outcome = download h (attempts s);
          s = wait h (s\<lparr>attempts := Suc (attempts s),
                          trace := trace s @ [DownloadFile (downloadUrl buildInfo)]\<rparr>)
      in case outcome of
           Pending \<Rightarrow> Some (Stuck, s)
         | Rejected _ \<Rightarrow>
             if originalProxySupport \<noteq> proxySupport s then
               (let s = config_update originalProxySupport s in
                Some (Failed ''Failed to download VSIX package with proxySupport off'',
                      s\<lparr>trace := trace s @
                          [Reject (Error ''Failed to download VSIX package with proxySupport off'')]\<rparr>))
             else if config_get h (proxySupport s) \<noteq> Some ''off'' \<and>
                     originalProxySupport \<noteq> Some ''off'' then
               download_loop fuel h buildInfo originalProxySupport
                 (config_update (Some ''off'') s)
             else
               Some (Failed ''Failed to download VSIX package'',
                     s\<lparr>trace := trace s @ [Reject (Error ''Failed to download VSIX package'')]\<rparr>)
         | Resolved _ \<Rightarrow>
             if originalProxySupport \<noteq> proxySupport s then
               (let s = config_update originalProxySupport s in
                Some (Downloaded,
                      s\<lparr>trace := trace s @
                          [LogEvent (Some ''Success with proxySupport off'') True]\<rparr>))
             else Some (Downloaded, s))"

text \<open>
  The executor of \<open>new Promise\<close> in \<open>applyUpdate\<close>: the callback of \<open>tmp.file\<close>. The original
  value of the setting is read when the callback starts.
\<close>

definition applyUpdate_body ::
    "nat \<Rightarrow> Host \<Rightarrow> string option \<Rightarrow> BuildInfo \<Rightarrow> ((unit, thrown) promise \<times> Cycle) option" where
  "applyUpdate_body fuel h globalValue buildInfo =
     (let s0 = \<lparr>proxySupport = globalValue, requested = [], awaits = 0, attempts = 0,
                trace = []\<rparr> in
      if tmp_file_err h then
        Some (Rejected (Error ''Failed to create vsix file''),
              s0\<lparr>trace := [Reject (Error ''Failed to create vsix file'')]\<rparr>)
      else
        (let originalProxySupport = proxySupport s0 in
         case download_loop fuel h buildInfo originalProxySupport s0 of
           None \<Rightarrow> None
         | Some (Stuck, s) \<Rightarrow> Some (Pending, s)
         | Some (Failed message, s) \<Rightarrow> Some (Rejected (Error message), s)
         | Some (Downloaded, s) \<Rightarrow>
             (let s = wait h (s\<lparr>trace := trace s @ [InstallVsix]\<rparr>) in
              case installVsix_result h of
                Pending \<Rightarrow> Some (Pending, s)
              | Rejected error \<Rightarrow> Some (Rejected error, s\<lparr>trace := trace s @ [Reject error]\<rparr>)
              | Resolved _ \<Rightarrow>
                  Some (Resolved (),
                        s\<lparr>trace := trace s @ [ClearInterval,
                            PromptReloadWindow
                              (''The C/C++ Extension has been updated to version '' @
                               build_name buildInfo @
                               ''. Please reload the window for the changes to take effect.''),
                            LogEvent None True, ResolveVoid]\<rparr>))))"

definition cppInstallVsixStr :: string where
  "cppInstallVsixStr = ''C/C++: Install vsix -- ''"

text \<open>The message that goes to telemetry: one with a slash or a backslash is hidden.\<close>

definition hide_pii :: "string \<Rightarrow> string" where
  "hide_pii message =
     (if CHR ''/'' \<in> set message \<or> CHR 0x5C \<in> set message
      then ''Potential PII hidden'' else message)"

text \<open>
  The handler of \<open>.catch\<close> in \<open>applyUpdate\<close>, and the promise that \<open>.catch\<close> returns for a
  rejection: fulfilled when the handler returns, rejected with what the handler throws.
  \<open>console.error\<close> reads \<open>error.message\<close>, which throws for \<open>undefined\<close>; the test for a
  slash calls \<open>error.message.indexOf\<close>, which throws when there is no message.
\<close>

definition catch_handler :: "thrown \<Rightarrow> Cycle \<Rightarrow> (unit, thrown) promise \<times> Cycle" where
  "catch_handler error s =
     (case error of
        Undefined \<Rightarrow> (Rejected (TypeError ''message''), s)
      | NoMessage \<Rightarrow>
          (Rejected (TypeError ''indexOf''),
           s\<lparr>trace := trace s @ [ConsoleError (cppInstallVsixStr @ ''undefined'')]\<rparr>)
      | Error message \<Rightarrow>
          (Resolved (),
           s\<lparr>trace := trace s @ [ConsoleError (cppInstallVsixStr @ message),
               LogEvent (Some (hide_pii message)) False]\<rparr>))"

text \<open>\<open>applyUpdate\<close>: the promise above with its \<open>.catch\<close>.\<close>

definition applyUpdate ::
    "nat \<Rightarrow> Host \<Rightarrow> string option \<Rightarrow> BuildInfo \<Rightarrow> ((unit, thrown) promise \<times> Cycle) option" where
  "applyUpdate fuel h globalValue buildInfo =
     (case applyUpdate_body fuel h globalValue buildInfo of
        None \<Rightarrow> None
      | Some (Rejected error, s) \<Rightarrow> Some (catch_handler error s)
      | Some (Pending, s) \<Rightarrow> Some (Pending, s)
      | Some (Resolved u, s) \<Rightarrow> Some (Resolved u, s))"

text \<open>
  \<open>checkAndApplyUpdate\<close>, on the cache \<open>buildInfoCache\<close> (\<open>None\<close> is \<open>null\<close>): the promise
  of the async function, the cache afterwards, and the actions. The \<open>catch\<close> around
  \<open>getTargetBuildInfo\<close> reads \<open>error.message\<close>; \<open>await applyUpdate(buildInfo)\<close> stands
  outside any \<open>try\<close>, so a rejection of \<open>applyUpdate\<close> rejects the promise.
\<close>

definition checkAndApplyUpdate ::
    "nat \<Rightarrow> Host \<Rightarrow> string option \<Rightarrow> BuildInfo option \<Rightarrow> string option \<Rightarrow>
     ((unit, thrown) promise \<times> BuildInfo option \<times> action list) option" where
  "checkAndApplyUpdate fuel h globalValue buildInfoCache updateChannel =
     (case buildInfoCache of
        Some buildInfo \<Rightarrow>
          map_option (\<lambda>(p, s). (p, None, trace s)) (applyUpdate fuel h globalValue buildInfo)
      | None \<Rightarrow>
          (case getTargetBuildInfo h updateChannel of
             Pending \<Rightarrow> Some (Pending, None, [])
           | Rejected error \<Rightarrow>
               (case error of
                  Undefined \<Rightarrow> Some (Rejected (TypeError ''message''), None, [])
                | NoMessage \<Rightarrow> Some (Resolved (), None, [LogEvent None False])
                | Error message \<Rightarrow> Some (Resolved (), None, [LogEvent (Some message) False]))
           | Resolved None \<Rightarrow> Some (Resolved (), None, [])
           | Resolved (Some buildInfo) \<Rightarrow>
               map_option (\<lambda>(p, s). (p, None, trace s))
                 (applyUpdate fuel h globalValue buildInfo)))"

subsection \<open>The polling timer\<close>

text \<open>
  The session, as far as the timer goes: the interval timers that are active, each with
  its handle and the extra arguments that \<open>setInterval\<close> was given; the next handle; the
  variable \<open>insiderUpdateTimer\<close>; and the calls of \<open>checkAndApplyUpdate\<close> so far, by their
  argument (\<open>None\<close> is \<open>undefined\<close>).
\<close>

record Session =
  timers :: "(nat \<times> string list) list"
  next_handle :: nat
  insiderUpdateTimer :: "nat option"
  checks :: "string option list"

definition startup :: Session where
  "startup = \<lparr>timers = [], next_handle = 0, insiderUpdateTimer = None, checks = []\<rparr>"

text \<open>
  \<open>insiderUpdateTimer = setInterval(checkAndApplyUpdate, insiderUpdateTimerInterval, ...args)\<close>
  and \<open>clearInterval(handle)\<close>, which does nothing for a handle that is \<open>undefined\<close> or not
  active; and a call of \<open>checkAndApplyUpdate\<close>, of which only the argument is recorded.
\<close>

definition setInterval :: "string list \<Rightarrow> Session \<Rightarrow> Session" where
  "setInterval args s =
     s\<lparr>timers := timers s @ [(next_handle s, args)],
       insiderUpdateTimer := Some (next_handle s),
       next_handle := Suc (next_handle s)\<rparr>"

definition clearInterval :: "nat option \<Rightarrow> Session \<Rightarrow> Session" where
  "clearInterval handle s = s\<lparr>timers := filter (\<lambda>t. Some (fst t) \<noteq> handle) (timers s)\<rparr>"

definition call_checkAndApplyUpdate :: "string option \<Rightarrow> Session \<Rightarrow> Session" where
  "call_checkAndApplyUpdate updateChannel s = s\<lparr>checks := checks s @ [updateChannel]\<rparr>"

text \<open>
  The end of \<open>realActivation\<close>, from the setting \<open>updateChannel\<close>. On the channel
  \<open>Default\<close> it calls \<open>suggestInsidersChannel\<close>, which sets no timer and makes no check by
  \<open>checkAndApplyUpdate\<close>.
\<close>

definition realActivation :: "string \<Rightarrow> Session \<Rightarrow> Session" where
  "realActivation updateChannel s =
     (if updateChannel = ''Default'' then s
      else if updateChannel = ''Insiders'' then
        call_checkAndApplyUpdate (Some updateChannel) (setInterval [updateChannel] s)
      else s)"

text \<open>
  The end of \<open>onDidChangeSettings\<close>, from \<open>changedActiveClientSettings['updateChannel']\<close>
  (\<open>None\<close> when the setting did not change; the empty string is falsy as well).
\<close>

definition onDidChangeSettings :: "string option \<Rightarrow> Session \<Rightarrow> Session" where
  "onDidChangeSettings newUpdateChannel s =
     (case newUpdateChannel of
        None \<Rightarrow> s
      | Some c \<Rightarrow>
          if c = [] then s
          else call_checkAndApplyUpdate (Some c)
                 (if c = ''Default'' then clearInterval (insiderUpdateTimer s) s
                  else if c = ''Insiders'' then setInterval [] s
                  else s))"

text \<open>
  One period of the interval: every active timer calls \<open>checkAndApplyUpdate\<close> with the
  extra arguments it was set with, so the parameter is the first of them or \<open>undefined\<close>.
\<close>

definition tick :: "Session \<Rightarrow> Session" where
  "tick s =
     foldl (\<lambda>s t. call_checkAndApplyUpdate (case snd t of [] \<Rightarrow> None | a # _ \<Rightarrow> Some a) s)
       s (timers s)"

section \<open>Properties of the parser\<close>

subsection \<open>The greedy star\<close>

lemma star_max:
  "k (acc @ takeWhile p s) (dropWhile p s) = Some r \<Longrightarrow> star p k acc s = Some r"
  by (induction s arbitrary: acc) auto

lemma star_det:
  "(\<And>a x xs. p x \<Longrightarrow> k a (x # xs) = None) \<Longrightarrow>
   star p k acc s = k (acc @ takeWhile p s) (dropWhile p s)"
  by (induction s arbitrary: acc) (auto split: option.splits)

lemma star_None_iff:
  "star p k acc s = None \<longleftrightarrow>
   (\<forall>n \<le> length (takeWhile p s). k (acc @ take n s) (drop n s) = None)"
proof (induction s arbitrary: acc)
  case Nil
  then show ?case by simp
next
  case (Cons c cs)
  show ?case
  proof (cases "p c")
    case False
    then show ?thesis by simp
  next
    case True
    have "(\<forall>n \<le> Suc (length (takeWhile p cs)). k (acc @ take n (c # cs)) (drop n (c # cs)) = None)
      \<longleftrightarrow> k acc (c # cs) = None \<and>
          (\<forall>n \<le> length (takeWhile p cs). k ((acc @ [c]) @ take n cs) (drop n cs) = None)"
      (is "?L \<longleftrightarrow> ?R")
    proof
      assume l: ?L
      have "k acc (c # cs) = None" using l[rule_format, of 0] by simp
      moreover have "k ((acc @ [c]) @ take n cs) (drop n cs) = None"
        if "n \<le> length (takeWhile p cs)" for n
        using l[rule_format, of "Suc n"] that by simp
      ultimately show ?R by blast
    next
      assume r: ?R
      show ?L
      proof (intro allI impI)
        fix n assume "n \<le> Suc (length (takeWhile p cs))"
        then show "k (acc @ take n (c # cs)) (drop n (c # cs)) = None"
          using r by (cases n) auto
      qed
    qed
    with True Cons.IH[of "acc @ [c]"] show ?thesis
      by (auto split: option.splits)
  qed
qed

subsection \<open>The line pattern\<close>

lemma key_not_space: "is_key c \<Longrightarrow> \<not> is_space c"
  by (auto simp: is_key_def is_word_def is_space_def word_le_nat_alt)

lemma not_dot_space: "\<not> is_dot c \<Longrightarrow> is_space c"
  by (auto simp: is_dot_def is_space_def)

lemma eq_not_key: "\<not> is_key 0x3D"
  by (simp add: is_key_def is_word_def)

lemma eq_not_space: "\<not> is_space 0x3D"
  by (simp add: is_space_def)

lemma trailing_space_end:
  "star is_space (\<lambda>_. at_end r) acc s = (if list_all is_space s then Some r else None)"
proof -
  have "star is_space (\<lambda>_. at_end r) acc s = at_end r (dropWhile is_space s)"
    by (rule star_det) (simp add: at_end_def)
  then show ?thesis
    by (simp add: at_end_def list_all_iff)
qed

lemma list_all_drop: "list_all p s \<Longrightarrow> list_all p (drop n s)"
  by (auto simp: list_all_iff dest: in_set_dropD)

lemma dropWhile_drop_suffix:
  "n \<le> length (takeWhile p s) \<Longrightarrow> \<exists>m. dropWhile p s = drop m (drop n s)"
proof -
  assume "n \<le> length (takeWhile p s)"
  then have "drop (length (takeWhile p s) - n) (drop n s) = drop (length (takeWhile p s)) s"
    by simp
  also have "\<dots> = dropWhile p s"
    by (simp add: dropWhile_eq_drop)
  finally show ?thesis by metis
qed

lemma opt_group_value:
  "opt_group is_dot (\<lambda>g. star is_space (\<lambda>_. at_end (key, g)) []) s =
     (if list_all is_space (dropWhile is_dot s)
      then Some (key, group_of (takeWhile is_dot s)) else None)"
proof -
  let ?k = "\<lambda>v rest. if v = [] then None
      else (if list_all is_space rest then Some (key, Some v) else None)"
  have og: "opt_group is_dot (\<lambda>g. star is_space (\<lambda>_. at_end (key, g)) []) s =
      (case star is_dot ?k [] s of Some r \<Rightarrow> Some r
       | None \<Rightarrow> if list_all is_space s then Some (key, None) else None)"
    by (simp add: opt_group_def trailing_space_end cong: if_cong option.case_cong)
  show ?thesis
  proof (cases "takeWhile is_dot s = []")
    case True
    then have d: "dropWhile is_dot s = s"
      by (metis append_Nil takeWhile_dropWhile_id)
    have "star is_dot ?k [] s = None"
      unfolding star_None_iff using True by simp
    with og True d show ?thesis by (simp add: group_of_def)
  next
    case False
    show ?thesis
    proof (cases "list_all is_space (dropWhile is_dot s)")
      case True
      with False have "?k ([] @ takeWhile is_dot s) (dropWhile is_dot s)
          = Some (key, Some (takeWhile is_dot s))" by simp
      then have "star is_dot ?k [] s = Some (key, Some (takeWhile is_dot s))"
        by (rule star_max)
      with og True False show ?thesis by (simp add: group_of_def)
    next
      case nsp: False
      have none: "\<not> list_all is_space (drop n s)" if "n \<le> length (takeWhile is_dot s)" for n
      proof
        assume a: "list_all is_space (drop n s)"
        from dropWhile_drop_suffix[OF that] obtain m where "dropWhile is_dot s = drop m (drop n s)" ..
        with nsp list_all_drop[OF a, of m] show False by simp
      qed
      have "star is_dot ?k [] s = None"
        unfolding star_None_iff using none by simp
      moreover have "\<not> list_all is_space s" using none[of 0] by simp
      ultimately show ?thesis using og nsp by simp
    qed
  qed
qed

lemma space_run_dot_tail:
  "list_all is_space w \<Longrightarrow> list_all is_space (dropWhile is_dot (w @ r)) \<Longrightarrow>
   list_all is_space (dropWhile is_dot r)"
proof (induction w)
  case Nil
  then show ?case by simp
next
  case (Cons c w)
  show ?case
  proof (cases "is_dot c")
    case True
    with Cons show ?thesis by simp
  next
    case False
    with Cons.prems have "list_all is_space r" by simp
    then show ?thesis
      by (auto simp: list_all_iff dest: set_dropWhileD)
  qed
qed

lemma drop_in_run:
  "n \<le> length (takeWhile p s) \<Longrightarrow> drop n s = drop n (takeWhile p s) @ dropWhile p s"
proof -
  assume n: "n \<le> length (takeWhile p s)"
  have "drop n (takeWhile p s @ dropWhile p s) = drop n (takeWhile p s) @ dropWhile p s"
    using n by (simp only: drop_append) simp
  then show ?thesis by (simp only: takeWhile_dropWhile_id)
qed

lemma value_tail:
  "star is_space (\<lambda>_. opt_group is_dot (\<lambda>g. star is_space (\<lambda>_. at_end (key, g)) [])) acc s =
     (let s5 = dropWhile is_space s in
        if list_all is_space (dropWhile is_dot s5)
        then Some (key, group_of (takeWhile is_dot s5)) else None)"
proof -
  let ?G = "\<lambda>u. if list_all is_space (dropWhile is_dot u)
      then Some (key, group_of (takeWhile is_dot u)) else None"
  have eq: "star is_space (\<lambda>_. opt_group is_dot (\<lambda>g. star is_space (\<lambda>_. at_end (key, g)) [])) acc s
      = star is_space (\<lambda>_. ?G) acc s"
  proof -
    have "opt_group is_dot (\<lambda>g. star is_space (\<lambda>_. at_end (key, g)) []) = ?G"
      by (rule ext) (rule opt_group_value)
    then show ?thesis by (simp only:)
  qed
  show ?thesis
  proof (cases "list_all is_space (dropWhile is_dot (dropWhile is_space s))")
    case True
    then have "?G (dropWhile is_space s)
        = Some (key, group_of (takeWhile is_dot (dropWhile is_space s)))" by simp
    then have "star is_space (\<lambda>_. ?G) acc s
        = Some (key, group_of (takeWhile is_dot (dropWhile is_space s)))"
      by (rule star_max)
    with eq True show ?thesis by simp
  next
    case False
    have "\<not> list_all is_space (dropWhile is_dot (drop n s))"
      if n: "n \<le> length (takeWhile is_space s)" for n
    proof
      assume a: "list_all is_space (dropWhile is_dot (drop n s))"
      have w: "list_all is_space (drop n (takeWhile is_space s))"
        by (auto simp: list_all_iff dest: in_set_dropD set_takeWhileD)
      from a have "list_all is_space
          (dropWhile is_dot (drop n (takeWhile is_space s) @ dropWhile is_space s))"
        by (simp add: drop_in_run[OF n, symmetric])
      with w have "list_all is_space (dropWhile is_dot (dropWhile is_space s))"
        by (rule space_run_dot_tail)
      with False show False by simp
    qed
    then have "star is_space (\<lambda>_. ?G) acc s = None"
      unfolding star_None_iff by simp
    with eq False show ?thesis by simp
  qed
qed

lemma line_match_scan: "line_match line = scan_line line"
proof -
  let ?T = "\<lambda>key. star is_space (\<lambda>_. opt_group is_dot (\<lambda>g. star is_space (\<lambda>_. at_end (key, g)) [])) []"
  let ?E = "\<lambda>key. lit 0x3D (?T key)"
  let ?K = "\<lambda>key. star is_space (\<lambda>_. ?E key) []"
  have e: "star is_space (\<lambda>_. ?E key) acc s = ?E key (dropWhile is_space s)" for key acc s
    by (rule star_det) (auto simp: lit_def eq_not_space)
  have k: "star is_key ?K acc s = ?K (acc @ takeWhile is_key s) (dropWhile is_key s)" for acc s
  proof (rule star_det)
    fix a x xs assume "is_key x"
    then have "\<not> is_space x" "x \<noteq> 0x3D"
      using key_not_space eq_not_key by auto
    then show "?K a (x # xs) = None" by (simp add: lit_def)
  qed
  have p: "star is_space (\<lambda>_. plus_cls is_key ?K) acc s = plus_cls is_key ?K (dropWhile is_space s)"
    for acc s
    by (rule star_det) (auto simp: plus_cls_def key_not_space)
  have "line_match line = plus_cls is_key ?K (dropWhile is_space line)"
    unfolding line_match_def by (rule p)
  also have "\<dots> = scan_line line"
  proof (cases "dropWhile is_space line")
    case Nil
    then show ?thesis by (simp add: plus_cls_def scan_line_def del: dropWhile_eq_Nil_conv)
  next
    case (Cons c cs)
    show ?thesis
    proof (cases "is_key c")
      case False
      with Cons show ?thesis
        by (simp add: plus_cls_def scan_line_def Let_def del: dropWhile_eq_Nil_conv split: list.splits)
    next
      case True
      with Cons have "plus_cls is_key ?K (dropWhile is_space line)
          = ?E (c # takeWhile is_key cs) (dropWhile is_space (dropWhile is_key cs))"
        by (simp add: plus_cls_def k e del: dropWhile_eq_Nil_conv)
      also have "\<dots> = scan_line line"
        using Cons True
        by (simp add: scan_line_def lit_def value_tail Let_def del: dropWhile_eq_Nil_conv split: list.splits)
      finally show ?thesis .
    qed
  qed
  finally show ?thesis .
qed

lemma hash_not_space: "\<not> is_space 0x23"
  by (simp add: is_space_def)

lemma list_all_takeWhile: "list_all p (takeWhile p s)"
  by (auto simp: list_all_iff dest: set_takeWhileD)

lemma dropWhile_all: "list_all p xs \<Longrightarrow> dropWhile p (xs @ ys) = dropWhile p ys"
  by (simp add: list_all_iff)

lemma takeWhile_all: "list_all p xs \<Longrightarrow> takeWhile p (xs @ ys) = xs @ takeWhile p ys"
  by (simp add: list_all_iff)

lemma comments_test_scan:
  "comments_test line \<longleftrightarrow>
     (case dropWhile is_space line of [] \<Rightarrow> True | c # _ \<Rightarrow> c = 0x23)"
proof -
  let ?k = "\<lambda>(_::jsstring) s. case lit 0x23 (\<lambda>_. Some ()) s of Some r \<Rightarrow> Some r | None \<Rightarrow> at_end () s"
  have "star is_space ?k [] line = ?k [] (dropWhile is_space line)"
    by (rule star_det[where acc = "[]", simplified]) (auto simp: lit_def at_end_def hash_not_space)
  then show ?thesis
    by (simp add: comments_test_def lit_def at_end_def del: dropWhile_eq_Nil_conv split: list.splits)
qed

lemma comments_test_iff: "comments_test line \<longleftrightarrow> is_blank line \<or> is_comment line"
proof
  assume "comments_test line"
  then consider "dropWhile is_space line = []" | rest where "dropWhile is_space line = 0x23 # rest"
    by (auto simp: comments_test_scan simp del: dropWhile_eq_Nil_conv split: list.splits)
  then show "is_blank line \<or> is_comment line"
  proof cases
    case 1
    then show ?thesis by (simp add: is_blank_def list_all_iff)
  next
    case 2
    then have "line = takeWhile is_space line @ [0x23] @ rest"
      by (metis append_Cons append_Nil takeWhile_dropWhile_id)
    then have "is_comment line"
      unfolding is_comment_def using list_all_takeWhile by blast
    then show ?thesis ..
  qed
next
  assume "is_blank line \<or> is_comment line"
  then show "comments_test line"
  proof
    assume "is_blank line"
    then have "dropWhile is_space line = []" by (simp add: is_blank_def list_all_iff)
    then show ?thesis by (simp add: comments_test_scan del: dropWhile_eq_Nil_conv)
  next
    assume "is_comment line"
    then obtain w rest where "line = w @ [0x23] @ rest" "list_all is_space w"
      by (auto simp: is_comment_def)
    then show ?thesis
      by (simp add: comments_test_scan dropWhile_all hash_not_space del: dropWhile_eq_Nil_conv)
  qed
qed

lemma dot_tail_after_value:
  assumes "list_all is_dot v" "list_all is_space w"
  shows "list_all is_space (dropWhile is_dot (dropWhile is_space (v @ w)))"
proof -
  obtain m where "dropWhile is_space (v @ w) = drop m v @ drop (m - length v) w"
    by (metis dropWhile_eq_drop drop_append)
  moreover have "list_all is_dot (drop m v)" using assms(1) by (rule list_all_drop)
  ultimately have "dropWhile is_dot (dropWhile is_space (v @ w))
      = dropWhile is_dot (drop (m - length v) w)"
    by (simp add: dropWhile_all)
  moreover have "list_all is_space (drop (m - length v) w)" using assms(2) by (rule list_all_drop)
  ultimately show ?thesis
    by (auto simp: list_all_iff dest: set_dropWhileD)
qed

lemma scan_line_grammar: "scan_line line \<noteq> None \<longleftrightarrow> matches_grammar line"
proof
  assume ok: "scan_line line \<noteq> None"
  define s1 where "s1 = dropWhile is_space line"
  define s2 where "s2 = dropWhile is_key s1"
  define s3 where "s3 = dropWhile is_space s2"
  from ok obtain s4 where s3: "s3 = 0x3D # s4" and key: "takeWhile is_key s1 \<noteq> []"
    and tail: "list_all is_space (dropWhile is_dot (dropWhile is_space s4))"
    by (auto simp: scan_line_def Let_def s1_def s2_def s3_def simp del: dropWhile_eq_Nil_conv
        split: list.splits if_splits)
  define s5 where "s5 = dropWhile is_space s4"
  have "line = takeWhile is_space line @ s1" by (simp add: s1_def)
  also have "s1 = takeWhile is_key s1 @ s2" by (simp add: s2_def)
  also have "s2 = takeWhile is_space s2 @ s3" by (simp add: s3_def)
  also have "s3 = [0x3D] @ s4" by (simp add: s3)
  also have "s4 = takeWhile is_space s4 @ s5" by (simp add: s5_def)
  also have "s5 = takeWhile is_dot s5 @ dropWhile is_dot s5" by simp
  finally have "line = takeWhile is_space line @ takeWhile is_key s1 @ takeWhile is_space s2 @
      [0x3D] @ takeWhile is_space s4 @ takeWhile is_dot s5 @ dropWhile is_dot s5" .
  with key tail show "matches_grammar line"
    unfolding matches_grammar_def s5_def using list_all_takeWhile by blast
next
  assume "matches_grammar line"
  then obtain w1 key w2 w3 v w4 where
    line: "line = w1 @ key @ w2 @ [0x3D] @ w3 @ v @ w4" and
    w1: "list_all is_space w1" and key: "key \<noteq> []" "list_all is_key key" and
    w2: "list_all is_space w2" and w3: "list_all is_space w3" and
    v: "list_all is_dot v" and w4: "list_all is_space w4"
    unfolding matches_grammar_def by blast
  from key obtain c cs where kc: "key = c # cs" "is_key c"
    by (cases key) auto
  let ?r = "w2 @ 0x3D # w3 @ v @ w4"
  have s1: "dropWhile is_space line = key @ ?r"
    using w1 kc by (simp add: line dropWhile_all key_not_space)
  have nk: "takeWhile is_key ?r = []"
    using w2 by (cases w2) (auto simp: eq_not_key key_not_space)
  have tk: "takeWhile is_key (key @ ?r) = key"
    using key(2) nk by (simp only: takeWhile_all) simp
  have dk: "dropWhile is_key (key @ ?r) = ?r"
    using tk by (metis same_append_eq takeWhile_dropWhile_id)
  have s3: "dropWhile is_space ?r = 0x3D # w3 @ v @ w4"
    using w2 by (simp add: dropWhile_all eq_not_space)
  have s5: "dropWhile is_space (w3 @ v @ w4) = dropWhile is_space (v @ w4)"
    using w3 by (simp add: dropWhile_all)
  show "scan_line line \<noteq> None"
    using key(1) dot_tail_after_value[OF v w4]
    by (simp add: scan_line_def Let_def s1 tk dk s3 s5 del: dropWhile_eq_Nil_conv)
qed

subsection \<open>The warning\<close>

lemma line_match_grammar: "line_match line \<noteq> None \<longleftrightarrow> matches_grammar line"
  by (simp only: line_match_scan scan_line_grammar)

lemma unparseable_code:
  "(\<not> is_blank l \<and> \<not> is_comment l \<and> \<not> matches_grammar l) \<longleftrightarrow>
   (line_match l = None \<and> \<not> comments_test l)"
  using line_match_grammar[of l] comments_test_iff[of l] by blast

lemma process_line_errors:
  "snd (process_line st l) = snd st @ (if line_match l = None \<and> \<not> comments_test l then [l] else [])"
  by (simp add: process_line_def split: option.splits prod.splits)

lemma foldl_process_line_errors:
  "snd (foldl process_line st ls) =
     snd st @ filter (\<lambda>l. line_match l = None \<and> \<not> comments_test l) ls"
  by (induction ls arbitrary: st) (simp_all add: process_line_errors)

lemma parse_errors_unparseable:
  "snd (foldl process_line (m, []) (file_lines content)) = unparseable_lines content"
  by (simp add: foldl_process_line_errors unparseable_lines_def unparseable_code)

lemma warning_items_join:
  "ls \<noteq> [] \<Longrightarrow> warning_items ls = join_with (js '', '') (map quoted ls) @ js ''.''"
proof (induction ls)
  case Nil
  then show ?case by simp
next
  case (Cons l ls)
  then show ?case by (cases ls) (simp_all add: quoted_def)
qed

lemma Warning_CreateFromContent:
  "Warning (CreateFromContent localize content envFile initialEnv) =
     (if unparseable_lines content = [] then None
      else Some (localize envFile @ warning_items (unparseable_lines content)))"
proof -
  obtain env errs where f: "foldl process_line (initial_map initialEnv, []) (file_lines content) = (env, errs)"
    by (cases "foldl process_line (initial_map initialEnv, []) (file_lines content)")
  then have "errs = unparseable_lines content"
    using parse_errors_unparseable[of "initial_map initialEnv" content] by simp
  with f show ?thesis
    by (simp add: CreateFromContent_def file_lines_def[symmetric])
qed

text \<open>The definitions that evaluate the parser on a concrete text.\<close>

lemmas char_classes = is_space_def is_key_def is_word_def is_dot_def is_quote_def
lemmas matcher_defs = line_match_def comments_test_def plus_cls_def lit_def opt_group_def at_end_def
lemmas parser_defs = CreateFromContent_def strip_bom_def initial_map_def process_line_def
  process_value_def strip_quotes_def js_def

text \<open>
  The byte-order mark is white space, so the first line is blank, a comment or of the
  grammar with the mark exactly when it is without.
\<close>

lemma split_lines_nonempty: "split_lines s \<noteq> []"
  by (induction s) (auto split: list.splits)

lemma scan_line_skip_space: "is_space c \<Longrightarrow> scan_line (c # l) = scan_line l"
  by (simp add: scan_line_def)

lemma comments_test_skip_space: "is_space c \<Longrightarrow> comments_test (c # l) = comments_test l"
  by (simp add: comments_test_scan)

lemma bom_is_space: "is_space 0xFEFF"
  by (simp add: is_space_def)

lemma unparseable_bom:
  "(line_match (0xFEFF # l) = None \<and> \<not> comments_test (0xFEFF # l)) \<longleftrightarrow>
   (line_match l = None \<and> \<not> comments_test l)"
  by (simp add: line_match_scan scan_line_skip_space comments_test_skip_space bom_is_space)

lemma split_lines_Cons:
  "c \<noteq> 0x0A \<Longrightarrow> \<exists>l ls. split_lines s = l # ls \<and> split_lines (c # s) = (c # l) # ls"
  by (cases "split_lines s") (auto simp: split_lines_nonempty)

lemma raw_lines_bom:
  "(\<forall>l \<in> set (split_lines content). \<not> is_blank l \<and> \<not> is_comment l \<longrightarrow> matches_grammar l) \<longleftrightarrow>
   (\<forall>l \<in> set (file_lines content). \<not> is_blank l \<and> \<not> is_comment l \<longrightarrow> matches_grammar l)"
proof (cases content)
  case Nil
  then show ?thesis by (simp add: file_lines_def strip_bom_def)
next
  case (Cons c s)
  show ?thesis
  proof (cases "c = 0xFEFF")
    case False
    with Cons show ?thesis by (simp add: file_lines_def strip_bom_def)
  next
    case True
    then have "c \<noteq> 0x0A" by simp
    from split_lines_Cons[OF this, of s] obtain l ls where
      s: "split_lines s = l # ls" and cs: "split_lines (c # s) = (c # l) # ls" by blast
    have f: "file_lines (c # s) = l # ls"
      using True s by (simp add: file_lines_def strip_bom_def)
    have "(\<not> is_blank (c # l) \<and> \<not> is_comment (c # l) \<and> \<not> matches_grammar (c # l)) \<longleftrightarrow>
        (\<not> is_blank l \<and> \<not> is_comment l \<and> \<not> matches_grammar l)"
      unfolding unparseable_code True by (rule unparseable_bom)
    then show ?thesis
      unfolding Cons f cs by (simp only: list.set ball_simps) blast
  qed
qed

text \<open>
  Claim C1. For every content and baseline, the warning of \<open>CreateFromContent\<close> is
  \<open>null\<close> exactly when every line of the text that is neither blank nor a comment is of
  the key=value grammar (for the lines of the content as it comes, and for its lines
  once the byte-order mark is removed); and a warning that is not \<open>null\<close> is the
  localized head followed by every unparseable line, verbatim and in file order, each
  wrapped in double quotes, separated by a comma and a space, and ended by a period.
\<close>

theorem C1_warning:
  "(Warning (CreateFromContent localize content envFile initialEnv) = None \<longleftrightarrow>
      (\<forall>l \<in> set (split_lines content). \<not> is_blank l \<and> \<not> is_comment l \<longrightarrow> matches_grammar l)) \<and>
   (Warning (CreateFromContent localize content envFile initialEnv) = None \<longleftrightarrow>
      (\<forall>l \<in> set (file_lines content). \<not> is_blank l \<and> \<not> is_comment l \<longrightarrow> matches_grammar l)) \<and>
   (\<forall>w. Warning (CreateFromContent localize content envFile initialEnv) = Some w \<longrightarrow>
      w = localize envFile @
          join_with (js '', '') (map quoted (unparseable_lines content)) @ js ''.'')"
proof -
  have "unparseable_lines content = [] \<longleftrightarrow>
      (\<forall>l \<in> set (file_lines content). \<not> is_blank l \<and> \<not> is_comment l \<longrightarrow> matches_grammar l)"
    by (auto simp: unparseable_lines_def filter_empty_conv)
  then show ?thesis
    by (simp add: Warning_CreateFromContent warning_items_join raw_lines_bom)
qed

theorem C1_warning_witness:
  "Warning (CreateFromContent (\<lambda>f. js ''Ignoring non-parseable lines in envFile '' @ f @ js '': '')
      (js ''A=1'' @ [0x0A] @ js ''foo'' @ [0x0A] @ js ''# c'' @ [0x0A, 0x0A] @ js ''bar baz'')
      (js ''.env'') None) =
   Some (js ''Ignoring non-parseable lines in envFile .env: '' @
         [0x22] @ js ''foo'' @ [0x22] @ js '', '' @ [0x22] @ js ''bar baz'' @ [0x22] @ js ''.'')"
proof -
  let ?c = "js ''A=1'' @ [0x0A] @ js ''foo'' @ [0x0A] @ js ''# c'' @ [0x0A, 0x0A] @ js ''bar baz''"
  let ?loc = "\<lambda>f. js ''Ignoring non-parseable lines in envFile '' @ f @ js '': ''"
  note c1 = C1_warning[of ?loc ?c "js ''.env''" None]
  have l: "file_lines ?c = [js ''A=1'', js ''foo'', js ''# c'', [], js ''bar baz'']"
    by (simp add: file_lines_def strip_bom_def js_def)
  have u: "unparseable_lines ?c = [js ''foo'', js ''bar baz'']"
    unfolding unparseable_lines_def l unparseable_code
    by (simp add: js_def matcher_defs char_classes)
  have "\<not> is_blank (js ''foo'') \<and> \<not> is_comment (js ''foo'') \<and> \<not> matches_grammar (js ''foo'')"
    unfolding unparseable_code by (simp add: js_def matcher_defs char_classes)
  moreover have "js ''foo'' \<in> set (file_lines ?c)"
    unfolding l by simp
  ultimately have "\<not> (\<forall>l \<in> set (file_lines ?c). \<not> is_blank l \<and> \<not> is_comment l \<longrightarrow> matches_grammar l)"
    by blast
  with c1 obtain w where w: "Warning (CreateFromContent ?loc ?c (js ''.env'') None) = Some w"
    by blast
  with c1 have "w = ?loc (js ''.env'') @ join_with (js '', '') (map quoted (unparseable_lines ?c)) @ js ''.''"
    by blast
  with w show ?thesis
    unfolding u by (simp add: quoted_def js_def)
qed

subsection \<open>The entries\<close>

lemma map_set_keys:
  "map fst (map_set k v m) = (if k \<in> set (map fst m) then map fst m else map fst m @ [k])"
proof (induction m)
  case Nil
  then show ?case by simp
next
  case (Cons kv m)
  then show ?case by (cases kv) (simp add: image_iff)
qed

lemma set_entry_keys:
  "map fst (set_entry m kv) =
     (if fst kv \<in> set (map fst m) then map fst m else map fst m @ [fst kv])"
  unfolding set_entry_def by (rule map_set_keys)

lemma map_of_map_set: "map_of (map_set k v m) = (map_of m)(k \<mapsto> v)"
  by (induction m) (auto simp: fun_eq_iff)

lemma map_of_set_entry: "map_of (set_entry m kv) = (map_of m)(fst kv \<mapsto> snd kv)"
  unfolding set_entry_def by (rule map_of_map_set)

lemma first_seen_snoc:
  "first_seen (xs @ [x]) = (if x \<in> set xs then first_seen xs else first_seen xs @ [x])"
  by (simp add: first_seen_def)

lemma set_first_seen: "set (first_seen xs) = set xs"
  by (simp add: first_seen_def)

lemma distinct_first_seen: "distinct (first_seen xs)"
  by (simp add: first_seen_def)

lemma foldl_set_entry_keys:
  "map fst (foldl set_entry [] kvs) = first_seen (map fst kvs)"
proof (induction kvs rule: rev_induct)
  case Nil
  then show ?case by (simp add: first_seen_def)
next
  case (snoc kv kvs)
  have "set (map fst (foldl set_entry [] kvs)) = set (map fst kvs)"
    by (simp only: snoc.IH set_first_seen)
  then show ?case
    by (simp add: set_entry_keys first_seen_snoc snoc.IH del: set_map)
qed

lemma foldl_set_entry_map_of:
  "map_of (foldl set_entry [] kvs) = map_of (rev kvs)"
proof (induction kvs rule: rev_induct)
  case Nil
  then show ?case by simp
next
  case (snoc kv kvs)
  then show ?case
    by (simp add: map_of_set_entry)
qed

lemma process_line_env:
  "fst (process_line st l) = foldl set_entry (fst st) (assignments [l])"
  by (simp add: process_line_def assignments_def set_entry_def List.map_filter_simps
      split: option.splits prod.splits)

lemma assignments_Cons: "assignments (l # ls) = assignments [l] @ assignments ls"
  by (simp add: assignments_def List.map_filter_simps split: option.splits)

lemma foldl_process_line_env:
  "fst (foldl process_line st ls) = foldl set_entry (fst st) (assignments ls)"
proof (induction ls arbitrary: st)
  case Nil
  then show ?case by (simp add: assignments_def List.map_filter_simps)
next
  case (Cons l ls)
  show ?case
    by (simp add: Cons.IH process_line_env assignments_Cons[of l ls])
qed

lemma initial_map_baseline: "initial_map initialEnv = foldl set_entry [] (baseline initialEnv)"
proof (cases initialEnv)
  case None
  then show ?thesis by (simp add: initial_map_def baseline_def)
next
  case (Some es)
  have "foldl (\<lambda>env e. map_set (name e) (val e) env) m es
      = foldl set_entry m (map (\<lambda>e. (name e, val e)) es)" for m
    by (induction es arbitrary: m) (simp_all add: set_entry_def)
  with Some show ?thesis by (simp add: initial_map_def baseline_def)
qed

lemma Env_CreateFromContent:
  "Env (CreateFromContent localize content envFile initialEnv) =
     map (\<lambda>(key, v). \<lparr>name = key, val = v\<rparr>)
       (foldl set_entry [] (baseline initialEnv @ assignments (file_lines content)))"
proof -
  obtain env errs where
    f: "foldl process_line (initial_map initialEnv, []) (file_lines content) = (env, errs)"
    by (cases "foldl process_line (initial_map initialEnv, []) (file_lines content)")
  then have "env = foldl set_entry [] (baseline initialEnv @ assignments (file_lines content))"
    using foldl_process_line_env[of "(initial_map initialEnv, [])" "file_lines content"]
    by (simp add: initial_map_baseline)
  with f show ?thesis
    by (simp add: CreateFromContent_def file_lines_def[symmetric])
qed

lemma names_of_entries: "map name (map (\<lambda>(key, v). \<lparr>name = key, val = v\<rparr>) m) = map fst m"
  by (induction m) auto

lemma entry_in_map:
  "e \<in> set (map (\<lambda>(key, v). \<lparr>name = key, val = v\<rparr>) m) \<Longrightarrow> (name e, val e) \<in> set m"
  by auto

text \<open>
  Claim C2. For every content and baseline, the names of the entries that
  \<open>CreateFromContent\<close> returns are distinct. With the baseline entries first and the
  assignments of the file after them in file order, the names are emitted each once at
  the position where it is first seen, and the value of a name is the one of its last
  assignment: an assignment to a name already seen overwrites the value in place, and a
  new name is appended. In particular the baseline \<open>A=1\<close> merged with the content
  \<open>A=2\<close>, newline, \<open>B=3\<close> gives exactly \<open>A=2\<close>, \<open>B=3\<close> in that order.
\<close>

theorem C2_entries:
  "(let es = Env (CreateFromContent localize content envFile initialEnv);
        every = baseline initialEnv @ assignments (file_lines content)
    in distinct (map name es) \<and>
       map name es = first_seen (map fst every) \<and>
       (\<forall>e \<in> set es. map_of (rev every) (name e) = Some (val e))) \<and>
   Env (CreateFromContent localize (js ''A=2'' @ [0x0A] @ js ''B=3'') envFile
          (Some [\<lparr>name = js ''A'', val = js ''1''\<rparr>])) =
     [\<lparr>name = js ''A'', val = js ''2''\<rparr>, \<lparr>name = js ''B'', val = js ''3''\<rparr>]"
proof -
  define every where "every = baseline initialEnv @ assignments (file_lines content)"
  define m where "m = foldl set_entry [] every"
  have es: "Env (CreateFromContent localize content envFile initialEnv)
      = map (\<lambda>(key, v). \<lparr>name = key, val = v\<rparr>) m"
    by (simp add: Env_CreateFromContent m_def every_def)
  have keys: "map fst m = first_seen (map fst every)"
    by (simp add: m_def foldl_set_entry_keys)
  have d: "distinct (map fst m)"
    by (simp add: keys distinct_first_seen)
  have v: "map_of (rev every) (name e) = Some (val e)"
    if "e \<in> set (map (\<lambda>(key, v). \<lparr>name = key, val = v\<rparr>) m)" for e
  proof -
    from that have "(name e, val e) \<in> set m" by (rule entry_in_map)
    with d have "map_of m (name e) = Some (val e)" by simp
    then show ?thesis by (simp add: m_def foldl_set_entry_map_of)
  qed
  have ex: "Env (CreateFromContent localize (js ''A=2'' @ [0x0A] @ js ''B=3'') envFile
          (Some [\<lparr>name = js ''A'', val = js ''1''\<rparr>])) =
     [\<lparr>name = js ''A'', val = js ''2''\<rparr>, \<lparr>name = js ''B'', val = js ''3''\<rparr>]"
    by (simp add: parser_defs matcher_defs char_classes)
  show ?thesis
    unfolding Let_def every_def[symmetric] es names_of_entries
    using keys d v ex by (simp add: keys[symmetric])
qed

theorem C2_entries_witness:
  "map name (Env (CreateFromContent (\<lambda>f. f) (js ''B=3'' @ [0x0A] @ js ''A=2'' @ [0x0A] @ js ''B=4'') []
      (Some [\<lparr>name = js ''A'', val = js ''1''\<rparr>]))) = [js ''A'', js ''B'']"
proof -
  let ?c = "js ''B=3'' @ [0x0A] @ js ''A=2'' @ [0x0A] @ js ''B=4''"
  let ?i = "Some [\<lparr>name = js ''A'', val = js ''1''\<rparr>]"
  have l: "file_lines ?c = [js ''B=3'', js ''A=2'', js ''B=4'']"
    by (simp add: file_lines_def strip_bom_def js_def)
  have a: "assignments (file_lines ?c) = [(js ''B'', js ''3''), (js ''A'', js ''2''), (js ''B'', js ''4'')]"
    unfolding l
    by (simp add: assignments_def List.map_filter_simps js_def matcher_defs char_classes
        process_value_def strip_quotes_def)
  have f: "first_seen (map fst (baseline ?i @ assignments (file_lines ?c))) = [js ''A'', js ''B'']"
    unfolding a by (simp add: baseline_def first_seen_def js_def)
  from C2_entries[of "\<lambda>f. f" ?c "[]" ?i] show ?thesis
    unfolding Let_def f by blast
qed

subsection \<open>The value\<close>

lemma strip_quotes_from_False:
  "strip_quotes_from False cs = (if cs \<noteq> [] \<and> is_quote (last cs) then butlast cs else cs)"
  by (induction cs) auto

lemma strip_quotes_spec: "strip_quotes v = strip_one_quote_each_end v"
  by (cases v) (auto simp: strip_quotes_def strip_one_quote_each_end_def strip_quotes_from_False)

lemma replace_backslash_n_append:
  "replace_backslash_n (a @ 0x5C # 0x6E # b) = replace_backslash_n a @ 0x0A # replace_backslash_n b"
  by (induction a rule: replace_backslash_n.induct) auto

lemma replace_backslash_n_absent:
  "\<not> has_backslash_n v \<Longrightarrow> replace_backslash_n v = v"
proof (induction v rule: replace_backslash_n.induct)
  case (1 a b cs)
  have n: "\<not> (a = 0x5C \<and> b = 0x6E)"
  proof
    assume "a = 0x5C \<and> b = 0x6E"
    then have "a # b # cs = [] @ [0x5C, 0x6E] @ cs" by simp
    with "1.prems" show False unfolding has_backslash_n_def by blast
  qed
  have "\<not> has_backslash_n (b # cs)"
  proof
    assume "has_backslash_n (b # cs)"
    then obtain x y where "b # cs = x @ [0x5C, 0x6E] @ y" unfolding has_backslash_n_def by blast
    then have "a # b # cs = (a # x) @ [0x5C, 0x6E] @ y" by simp
    with "1.prems" show False unfolding has_backslash_n_def by blast
  qed
  with n "1.IH"(2) show ?case by simp
qed simp_all

lemma process_value_spec: "process_value g = post_processed (group_text g)"
proof -
  let ?v = "group_text g"
  have "(length ?v > 0 \<and> ?v ! 0 = 0x22 \<and> ?v ! (length ?v - 1) = 0x22) \<longleftrightarrow>
      wrapped_in_double_quotes ?v \<or> ?v = [0x22]"
  proof (cases ?v)
    case Nil
    then show ?thesis by (simp add: wrapped_in_double_quotes_def)
  next
    case (Cons c cs)
    then show ?thesis
      by (cases cs rule: rev_cases) (auto simp: wrapped_in_double_quotes_def nth_append)
  qed
  moreover have "replace_backslash_n [0x22] = [0x22]" by simp
  ultimately show ?thesis
    unfolding process_value_def post_processed_def group_text_def[symmetric] Let_def
      strip_quotes_spec
    by (auto simp: wrapped_in_double_quotes_def)
qed

text \<open>
  Claim C3. For every line the pattern matches, the value that is stored is the text of
  the second group post-processed in this order: (a) when it is wrapped in a matching pair
  of double quotes, every backslash followed by \<open>n\<close> in it is replaced by a newline (the
  replacement passes over every occurrence and leaves a text without one unchanged); (b)
  then, whether or not (a) applied, one leading and one trailing quote, single or double,
  is removed where present. In particular the line \<open>KEY="line1\nline2"\<close>, with the quotes
  and the backslash in the file, gives a value with a newline between \<open>line1\<close> and
  \<open>line2\<close>.
\<close>

theorem C3_post_processing:
  "(line_match line = Some (key, g) \<longrightarrow>
      process_line (env, errs) line = (map_set key (post_processed (group_text g)) env, errs)) \<and>
   replace_backslash_n (a @ [0x5C, 0x6E] @ b) =
      replace_backslash_n a @ [0x0A] @ replace_backslash_n b \<and>
   (\<not> has_backslash_n v \<longrightarrow> replace_backslash_n v = v) \<and>
   Env (CreateFromContent localize
          (js ''KEY='' @ [0x22] @ js ''line1'' @ [0x5C, 0x6E] @ js ''line2'' @ [0x22])
          envFile None) =
     [\<lparr>name = js ''KEY'', val = js ''line1'' @ [0x0A] @ js ''line2''\<rparr>]"
proof -
  have "process_line (env, errs) line = (map_set key (post_processed (group_text g)) env, errs)"
    if "line_match line = Some (key, g)"
    using that by (simp add: process_line_def process_value_spec)
  moreover have "Env (CreateFromContent localize
          (js ''KEY='' @ [0x22] @ js ''line1'' @ [0x5C, 0x6E] @ js ''line2'' @ [0x22])
          envFile None) =
     [\<lparr>name = js ''KEY'', val = js ''line1'' @ [0x0A] @ js ''line2''\<rparr>]"
    by (simp add: parser_defs matcher_defs char_classes)
  ultimately show ?thesis
    using replace_backslash_n_append[of a b] replace_backslash_n_absent[of v] by simp
qed

theorem C3_post_processing_witness:
  "process_line ([], []) (js ''K='' @ [0x22] @ js ''a'' @ [0x5C, 0x6E] @ js ''b'' @ [0x22]) =
     ([(js ''K'', js ''a'' @ [0x0A] @ js ''b'')], []) \<and>
   replace_backslash_n (js ''x'' @ [0x5C, 0x6E] @ js ''y'') = js ''x'' @ [0x0A] @ js ''y'' \<and>
   replace_backslash_n (js ''a=n'') = js ''a=n''"
proof -
  let ?line = "js ''K='' @ [0x22] @ js ''a'' @ [0x5C, 0x6E] @ js ''b'' @ [0x22]"
  let ?raw = "[0x22] @ js ''a'' @ [0x5C, 0x6E] @ js ''b'' @ [0x22]"
  note c3 = C3_post_processing[of ?line "js ''K''" "Some ?raw" "[]" "[]" "js ''x''" "js ''y''"
      "js ''a=n''" "\<lambda>f. f" "[]"]
  have m: "line_match ?line = Some (js ''K'', Some ?raw)"
    by (simp add: js_def matcher_defs char_classes)
  have p: "post_processed (group_text (Some ?raw)) = js ''a'' @ [0x0A] @ js ''b''"
    by (simp add: post_processed_def group_text_def wrapped_in_double_quotes_def
        strip_one_quote_each_end_def is_quote_def js_def)
  have n: "\<not> has_backslash_n (js ''a=n'')"
    by (auto simp: has_backslash_n_def js_def append_eq_Cons_conv Cons_eq_append_conv)
  from c3 m p n show ?thesis
    by (simp add: js_def)
qed

text \<open>
  Claim C10. The removal of quotes treats the leading and the trailing quote
  independently and never asks them to match: a value that starts with one quote
  character and ends with the other loses both (the line \<open>K='v"\<close> gives the value \<open>v\<close>),
  and the value that is a single double quote becomes the empty string.
\<close>

theorem C10_quotes_independent:
  "(is_quote q1 \<and> is_quote q2 \<and> q1 \<noteq> q2 \<longrightarrow> process_value (Some ([q1] @ m @ [q2])) = m) \<and>
   Env (CreateFromContent localize (js ''K='' @ [0x27] @ js ''v'' @ [0x22]) envFile None) =
     [\<lparr>name = js ''K'', val = js ''v''\<rparr>] \<and>
   process_value (Some [0x22]) = []"
proof -
  have "process_value (Some ([q1] @ m @ [q2])) = m"
    if q: "is_quote q1" "is_quote q2" "q1 \<noteq> q2"
  proof -
    have "\<not> (q1 = 0x22 \<and> q2 = 0x22)" using q by auto
    then have "\<not> wrapped_in_double_quotes ([q1] @ m @ [q2])"
      by (auto simp: wrapped_in_double_quotes_def)
    then show ?thesis
      using q by (simp add: process_value_spec post_processed_def group_text_def
          strip_one_quote_each_end_def)
  qed
  moreover have "Env (CreateFromContent localize (js ''K='' @ [0x27] @ js ''v'' @ [0x22]) envFile None) =
     [\<lparr>name = js ''K'', val = js ''v''\<rparr>]"
    by (simp add: parser_defs matcher_defs char_classes)
  moreover have "process_value (Some [0x22]) = []"
    by (simp add: process_value_def strip_quotes_def is_quote_def)
  ultimately show ?thesis by blast
qed

theorem C10_quotes_independent_witness:
  "process_value (Some ([0x22] @ js ''a b'' @ [0x27])) = js ''a b''"
proof -
  have "is_quote 0x22 \<and> is_quote 0x27 \<and> (0x22 :: jschar) \<noteq> 0x27"
    by (simp add: is_quote_def)
  with C10_quotes_independent[of "0x22" "0x27" "js ''a b''" "\<lambda>f. f" "[]"] show ?thesis
    by blast
qed

text \<open>
  Claim C9 says that white space at the end of a matching line is consumed by the last
  \<open><whitespace>*\<close> of the grammar, so that \<open>K=v\<close> followed by two spaces gives the value
  \<open>v\<close>. The pattern does not do that: the greedy \<open>(.*)\<close> before the final \<open>\s*\<close> takes the
  two spaces, and they are stored in the value. The final \<open>\s*\<close> consumes only what
  starts at a line terminator, such as the carriage return of a line that ends in CR LF.
\<close>

theorem C9_trailing_whitespace_kept:
  "Env (CreateFromContent localize (js ''K=v  '') envFile None) =
     [\<lparr>name = js ''K'', val = js ''v  ''\<rparr>] \<and>
   Env (CreateFromContent localize (js ''K=v'' @ [0x0D]) envFile None) =
     [\<lparr>name = js ''K'', val = js ''v''\<rparr>]"
  by (simp add: parser_defs matcher_defs char_classes)

subsection \<open>Writing the entries back and parsing again\<close>

lemma split_lines_no_newline: "0x0A \<notin> set l \<Longrightarrow> split_lines l = [l]"
  by (induction l) auto

lemma split_lines_append:
  "0x0A \<notin> set l \<Longrightarrow> split_lines (l @ 0x0A # s) = l # split_lines s"
  by (induction l) auto

lemma split_lines_join:
  "ls \<noteq> [] \<Longrightarrow> \<forall>l \<in> set ls. 0x0A \<notin> set l \<Longrightarrow> split_lines (join_with [0x0A] ls) = ls"
proof (induction ls)
  case Nil
  then show ?case by simp
next
  case (Cons x xs)
  show ?case
  proof (cases xs)
    case Nil
    with Cons.prems show ?thesis by (simp add: split_lines_no_newline)
  next
    case (Cons y ys)
    with Cons.IH Cons.prems show ?thesis by (simp add: split_lines_append)
  qed
qed

lemma key_not_newline: "is_key c \<Longrightarrow> c \<noteq> 0x0A"
  using key_not_space[of c] by (auto simp: is_space_def)

lemma key_not_bom: "is_key c \<Longrightarrow> c \<noteq> 0xFEFF"
  using key_not_space[of c] by (auto simp: is_space_def)

lemma scan_line_key:
  "scan_line line = Some (key, g) \<Longrightarrow> key \<noteq> [] \<and> list_all is_key key"
  by (auto simp: scan_line_def Let_def list_all_takeWhile simp del: dropWhile_eq_Nil_conv
      split: list.splits if_splits)

lemma assignments_keys:
  "(k, v) \<in> set (assignments ls) \<Longrightarrow> k \<noteq> [] \<and> list_all is_key k"
  by (auto simp: assignments_def List.map_filter_def line_match_scan
      split: option.splits dest: scan_line_key)

lemma scan_line_formatted:
  assumes "k \<noteq> []" "list_all is_key k" "list_all is_dot v" "v \<noteq> [] \<longrightarrow> \<not> is_space (hd v)"
  shows "scan_line (k @ 0x3D # v) = Some (k, group_of v)"
proof -
  from assms(1,2) obtain c cs where kc: "k = c # cs" "is_key c"
    by (cases k) auto
  have s1: "dropWhile is_space (k @ 0x3D # v) = k @ 0x3D # v"
    using kc by (simp add: key_not_space)
  have tk: "takeWhile is_key (k @ 0x3D # v) = k"
    using assms(2) by (simp add: takeWhile_all eq_not_key)
  have dk: "dropWhile is_key (k @ 0x3D # v) = 0x3D # v"
    using assms(2) by (simp add: dropWhile_all eq_not_key)
  have s5: "dropWhile is_space v = v"
    using assms(4) by (cases v) auto
  have tv: "takeWhile is_dot v = v" "dropWhile is_dot v = []"
    using assms(3) by (simp_all add: list_all_iff)
  show ?thesis
    using assms(1)
    by (simp add: scan_line_def Let_def s1 tk dk s5 tv eq_not_space del: dropWhile_eq_Nil_conv)
qed

lemma foldl_set_entry_distinct:
  "distinct (map fst (m0 @ m)) \<Longrightarrow> foldl set_entry m0 m = m0 @ m"
proof (induction m arbitrary: m0)
  case Nil
  then show ?case by simp
next
  case (Cons kv m)
  have "fst kv \<notin> set (map fst m0)" using Cons.prems by auto
  then have "set_entry m0 kv = m0 @ [kv]"
    unfolding set_entry_def by (induction m0) auto
  with Cons.IH[of "m0 @ [kv]"] Cons.prems show ?case by simp
qed

lemma Env_entries:
  "Env (CreateFromContent localize content envFile None) =
     map entry_of (foldl set_entry [] (assignments (file_lines content)))"
proof -
  have "(\<lambda>(key, v). \<lparr>name = key, val = v\<rparr>) = entry_of"
    by (auto simp: entry_of_def fun_eq_iff)
  then show ?thesis
    by (simp add: Env_CreateFromContent baseline_def)
qed


lemma has_backslash_n_Nil: "\<not> has_backslash_n []"
  by (simp add: has_backslash_n_def)

lemma has_backslash_n_single: "\<not> has_backslash_n [x]"
  by (auto simp: has_backslash_n_def append_eq_Cons_conv Cons_eq_append_conv)

lemma has_backslash_n_Cons2:
  "has_backslash_n (a # b # cs) \<longleftrightarrow> (a = 0x5C \<and> b = 0x6E) \<or> has_backslash_n (b # cs)"
proof
  assume "has_backslash_n (a # b # cs)"
  then obtain x y where xy: "a # b # cs = x @ [0x5C, 0x6E] @ y"
    unfolding has_backslash_n_def by blast
  show "(a = 0x5C \<and> b = 0x6E) \<or> has_backslash_n (b # cs)"
  proof (cases x)
    case Nil
    with xy show ?thesis by simp
  next
    case (Cons x1 xs)
    with xy have "b # cs = xs @ [0x5C, 0x6E] @ y" by simp
    then show ?thesis unfolding has_backslash_n_def by blast
  qed
next
  assume "(a = 0x5C \<and> b = 0x6E) \<or> has_backslash_n (b # cs)"
  then show "has_backslash_n (a # b # cs)"
  proof
    assume "a = 0x5C \<and> b = 0x6E"
    then have "a # b # cs = [] @ [0x5C, 0x6E] @ cs" by simp
    then show ?thesis unfolding has_backslash_n_def by blast
  next
    assume "has_backslash_n (b # cs)"
    then obtain x y where "b # cs = x @ [0x5C, 0x6E] @ y"
      unfolding has_backslash_n_def by blast
    then have "a # b # cs = (a # x) @ [0x5C, 0x6E] @ y" by simp
    then show ?thesis unfolding has_backslash_n_def by blast
  qed
qed

lemmas has_backslash_n_simps = has_backslash_n_Nil has_backslash_n_single has_backslash_n_Cons2

lemma replace_backslash_n_head:
  "replace_backslash_n (b # cs) \<noteq> [] \<and>
   (hd (replace_backslash_n (b # cs)) = b \<or> hd (replace_backslash_n (b # cs)) = 0x0A)"
  by (cases cs) auto

lemma replace_backslash_n_complete: "\<not> has_backslash_n (replace_backslash_n r)"
proof (induction r rule: replace_backslash_n.induct)
  case (1 a b cs)
  show ?case
  proof (cases "a = 0x5C \<and> b = 0x6E")
    case True
    with "1.IH"(1) show ?thesis
      by (cases "replace_backslash_n cs") (simp_all add: has_backslash_n_simps)
  next
    case False
    obtain x xs where r: "replace_backslash_n (b # cs) = x # xs" and x: "x = b \<or> x = 0x0A"
      using replace_backslash_n_head[of b cs] by (cases "replace_backslash_n (b # cs)") auto
    with False "1.IH"(2) show ?thesis
      by (auto simp: has_backslash_n_simps)
  qed
qed (simp_all add: has_backslash_n_simps)

lemma replace_escape_newlines:
  "\<not> has_backslash_n v \<Longrightarrow> replace_backslash_n (escape_newlines v) = v"
proof (induction v)
  case Nil
  then show ?case by simp
next
  case (Cons c cs)
  have cs: "\<not> has_backslash_n cs"
    using Cons.prems by (cases cs) (auto simp: has_backslash_n_simps)
  show ?case
  proof (cases "c = 0x0A")
    case True
    with Cons.IH[OF cs] show ?thesis by simp
  next
    case False
    show ?thesis
    proof (cases cs)
      case Nil
      with False show ?thesis by simp
    next
      case (Cons d ds)
      with Cons.prems have n: "\<not> (c = 0x5C \<and> d = 0x6E)"
        by (simp add: has_backslash_n_simps)
      obtain e es where e: "escape_newlines cs = e # es" and "e = d \<or> e = 0x5C"
        using Cons by (cases "d = 0x0A") auto
      with n have "\<not> (c = 0x5C \<and> e = 0x6E)" by auto
      with False e Cons.IH[OF cs] show ?thesis by simp
    qed
  qed
qed

lemma escape_newlines_append:
  "escape_newlines (xs @ ys) = escape_newlines xs @ escape_newlines ys"
  by (induction xs) auto

lemma has_backslash_n_snoc:
  "has_backslash_n (v @ [y]) \<longleftrightarrow> has_backslash_n v \<or> (v \<noteq> [] \<and> last v = 0x5C \<and> y = 0x6E)"
proof (induction v)
  case Nil
  then show ?case by (simp add: has_backslash_n_simps)
next
  case (Cons a v)
  then show ?case
    by (cases v) (auto simp: has_backslash_n_simps)
qed

lemma set_escape_newlines:
  "set (escape_newlines v) \<subseteq> (set v - {0x0A}) \<union> {0x5C, 0x6E}"
  by (induction v) auto

lemma set_replace_backslash_n: "set (replace_backslash_n r) \<subseteq> set r \<union> {0x0A}"
  by (induction r rule: replace_backslash_n.induct) auto

lemma set_strip_one_quote_each_end: "set (strip_one_quote_each_end v) \<subseteq> set v"
  by (auto simp: strip_one_quote_each_end_def Let_def dest: in_set_butlastD list.set_sel(2))


lemma strip_one_quote_each_end_infix:
  "\<exists>p q. v = p @ strip_one_quote_each_end v @ q"
proof -
  define v1 where "v1 = (if v \<noteq> [] \<and> is_quote (hd v) then tl v else v)"
  have s: "strip_one_quote_each_end v = (if v1 \<noteq> [] \<and> is_quote (last v1) then butlast v1 else v1)"
    by (simp add: strip_one_quote_each_end_def v1_def)
  obtain p where p: "v = p @ v1"
  proof (cases "v \<noteq> [] \<and> is_quote (hd v)")
    case True
    then have "v = [hd v] @ v1" by (simp add: v1_def)
    then show ?thesis by (rule that)
  next
    case False
    then have "v = [] @ v1" by (auto simp: v1_def)
    then show ?thesis by (rule that)
  qed
  obtain q where q: "v1 = strip_one_quote_each_end v @ q"
  proof (cases "v1 \<noteq> [] \<and> is_quote (last v1)")
    case True
    then have "v1 = strip_one_quote_each_end v @ [last v1]" by (simp add: s)
    then show ?thesis by (rule that)
  next
    case False
    then have "v1 = strip_one_quote_each_end v @ []" by (auto simp: s)
    then show ?thesis by (rule that)
  qed
  from p q have "v = p @ strip_one_quote_each_end v @ q" by simp
  then show ?thesis by blast
qed

lemma has_backslash_n_infix:
  "has_backslash_n w \<Longrightarrow> has_backslash_n (p @ w @ q)"
proof -
  assume "has_backslash_n w"
  then obtain a b where "w = a @ [0x5C, 0x6E] @ b" unfolding has_backslash_n_def by blast
  then have "p @ w @ q = (p @ a) @ [0x5C, 0x6E] @ (b @ q)" by simp
  then show ?thesis unfolding has_backslash_n_def by blast
qed

lemma strip_no_backslash_n:
  "\<not> has_backslash_n v \<Longrightarrow> \<not> has_backslash_n (strip_one_quote_each_end v)"
proof
  assume n: "\<not> has_backslash_n v" and h: "has_backslash_n (strip_one_quote_each_end v)"
  obtain p q where v: "v = p @ strip_one_quote_each_end v @ q"
    using strip_one_quote_each_end_infix[of v] by blast
  from h have "has_backslash_n (p @ strip_one_quote_each_end v @ q)"
    by (rule has_backslash_n_infix)
  with v n show False by simp
qed

lemma process_value_emitted:
  assumes "list_all is_dot (group_text g)"
  shows "emitted_value (process_value g)"
proof -
  let ?raw = "group_text g"
  have raw: "\<forall>c \<in> set ?raw. c \<noteq> 0x0A \<and> c \<noteq> 0x0D \<and> c \<noteq> 0x2028 \<and> c \<noteq> 0x2029"
    using assms by (simp add: list_all_iff is_dot_def)
  show ?thesis
  proof (cases "wrapped_in_double_quotes ?raw")
    case True
    then have v: "process_value g = strip_one_quote_each_end (replace_backslash_n ?raw)"
      by (simp add: process_value_spec post_processed_def)
    have "set (process_value g) \<subseteq> set ?raw \<union> {0x0A}"
      unfolding v using set_strip_one_quote_each_end set_replace_backslash_n by blast
    with raw have "\<forall>c \<in> set (process_value g). c \<noteq> 0x0D \<and> c \<noteq> 0x2028 \<and> c \<noteq> 0x2029"
      by auto
    moreover have "\<not> has_backslash_n (process_value g)"
      unfolding v by (intro strip_no_backslash_n replace_backslash_n_complete)
    ultimately show ?thesis
      by (simp add: emitted_value_def list_all_iff)
  next
    case False
    then have v: "process_value g = strip_one_quote_each_end ?raw"
      by (simp add: process_value_spec post_processed_def)
    have "set (process_value g) \<subseteq> set ?raw"
      unfolding v by (rule set_strip_one_quote_each_end)
    with raw have "\<forall>c \<in> set (process_value g).
        c \<noteq> 0x0A \<and> c \<noteq> 0x0D \<and> c \<noteq> 0x2028 \<and> c \<noteq> 0x2029"
      by auto
    then show ?thesis
      by (auto simp: emitted_value_def list_all_iff)
  qed
qed

lemma scan_line_group:
  "scan_line line = Some (key, g) \<Longrightarrow> list_all is_dot (group_text g)"
  by (auto simp: scan_line_def Let_def list_all_takeWhile group_of_def group_text_def
      simp del: dropWhile_eq_Nil_conv split: list.splits if_splits)

lemma assignments_values:
  "(k, v) \<in> set (assignments ls) \<Longrightarrow> emitted_value v"
proof (induction ls)
  case Nil
  then show ?case by (simp add: assignments_def List.map_filter_simps)
next
  case (Cons l ls)
  from Cons.prems have "(k, v) \<in> set (assignments [l]) \<or> (k, v) \<in> set (assignments ls)"
    using assignments_Cons[of l ls] by simp
  then show ?case
  proof
    assume a: "(k, v) \<in> set (assignments [l])"
    then obtain g where g: "line_match l = Some (k, g)" and v: "v = process_value g"
      by (cases "line_match l") (auto simp: assignments_def List.map_filter_simps)
    from g have "list_all is_dot (group_text g)"
      unfolding line_match_scan by (rule scan_line_group)
    then show ?thesis unfolding v by (rule process_value_emitted)
  next
    assume "(k, v) \<in> set (assignments ls)"
    then show ?thesis by (rule Cons.IH)
  qed
qed

lemma quote_value_shape:
  assumes "emitted_value v"
  shows "list_all is_dot (quote_value v)" and "quote_value v \<noteq> []"
    and "\<not> is_space (hd (quote_value v))"
proof -
  have v: "\<forall>c \<in> set v. c \<noteq> 0x0D \<and> c \<noteq> 0x2028 \<and> c \<noteq> 0x2029"
    using assms by (simp add: emitted_value_def list_all_iff)
  show "list_all is_dot (quote_value v)"
  proof (cases "0x0A \<in> set v")
    case True
    have "\<forall>c \<in> set (escape_newlines v). is_dot c"
      using set_escape_newlines[of v] v by (auto simp: is_dot_def)
    with True show ?thesis
      by (simp add: quote_value_def list_all_iff is_dot_def)
  next
    case False
    with v show ?thesis
      by (auto simp: quote_value_def list_all_iff is_dot_def)
  qed
  show "quote_value v \<noteq> []" by (simp add: quote_value_def)
  show "\<not> is_space (hd (quote_value v))"
    by (simp add: quote_value_def is_space_def)
qed

lemma process_value_quoted:
  assumes "emitted_value v"
  shows "process_value (Some (quote_value v)) = v"
proof (cases "0x0A \<in> set v")
  case False
  then have q: "quote_value v = 0x27 # v @ [0x27]" by (simp add: quote_value_def)
  show ?thesis
    unfolding process_value_spec q
    by (simp add: post_processed_def group_text_def wrapped_in_double_quotes_def
        strip_one_quote_each_end_def is_quote_def)
next
  case True
  then have q: "quote_value v = 0x22 # escape_newlines v @ [0x22]" by (simp add: quote_value_def)
  from True assms have n: "\<not> has_backslash_n v" by (simp add: emitted_value_def)
  have "\<not> has_backslash_n (v @ [0x22])"
    using n by (simp add: has_backslash_n_snoc)
  then have "\<not> has_backslash_n (0x22 # v @ [0x22])"
    by (cases "v @ [0x22]") (simp_all add: has_backslash_n_simps)
  then have "replace_backslash_n (escape_newlines (0x22 # v @ [0x22])) = 0x22 # v @ [0x22]"
    by (rule replace_escape_newlines)
  then have r: "replace_backslash_n (0x22 # escape_newlines v @ [0x22]) = 0x22 # v @ [0x22]"
    by (simp add: escape_newlines_append)
  show ?thesis
    unfolding process_value_spec q
    by (simp add: post_processed_def group_text_def wrapped_in_double_quotes_def r
        strip_one_quote_each_end_def is_quote_def)
qed

lemma line_match_formatted:
  assumes "k \<noteq> []" "list_all is_key k" "emitted_value v"
  shows "line_match (format_entry (entry_of (k, v))) = Some (k, Some (quote_value v))"
proof -
  have "scan_line (k @ 0x3D # quote_value v) = Some (k, group_of (quote_value v))"
    using assms(1,2) quote_value_shape[OF assms(3)] by (intro scan_line_formatted) auto
  then show ?thesis
    using quote_value_shape(2)[OF assms(3)]
    by (simp add: line_match_scan format_entry_def entry_of_def group_of_def)
qed

lemma assignments_formatted:
  assumes "\<forall>kv \<in> set m. fst kv \<noteq> [] \<and> list_all is_key (fst kv) \<and> emitted_value (snd kv)"
  shows "assignments (map (\<lambda>kv. format_entry (entry_of kv)) m) = m"
  using assms
proof (induction m)
  case Nil
  then show ?case by (simp add: assignments_def List.map_filter_simps)
next
  case (Cons kv m)
  obtain k v where kv: "kv = (k, v)" by (cases kv)
  with Cons.prems have ok: "k \<noteq> []" "list_all is_key k" "emitted_value v" by auto
  have "assignments [format_entry (entry_of kv)] = [kv]"
    unfolding kv
    by (simp add: assignments_def List.map_filter_simps line_match_formatted[OF ok]
        process_value_quoted[OF ok(3)])
  with Cons show ?case
    using assignments_Cons[of "format_entry (entry_of kv)" "map (\<lambda>kv. format_entry (entry_of kv)) m"]
    by simp
qed

lemma formatted_no_newline:
  assumes "list_all is_key k" "emitted_value v"
  shows "0x0A \<notin> set (format_entry (entry_of (k, v)))"
  using assms(1) quote_value_shape(1)[OF assms(2)]
  by (auto simp: format_entry_def entry_of_def list_all_iff is_dot_def dest: key_not_newline)

lemma file_lines_formatted:
  assumes "m \<noteq> []"
    and "\<forall>kv \<in> set m. fst kv \<noteq> [] \<and> list_all is_key (fst kv) \<and> emitted_value (snd kv)"
  shows "file_lines (format_env (map entry_of m)) = map (\<lambda>kv. format_entry (entry_of kv)) m"
proof -
  let ?ls = "map (\<lambda>kv. format_entry (entry_of kv)) m"
  have nl: "\<forall>l \<in> set ?ls. 0x0A \<notin> set l"
  proof
    fix l assume "l \<in> set ?ls"
    then obtain kv where "kv \<in> set m" "l = format_entry (entry_of kv)" by auto
    with assms(2) formatted_no_newline[of "fst kv" "snd kv"] show "0x0A \<notin> set l" by simp
  qed
  have ne: "?ls \<noteq> []" using assms(1) by simp
  obtain kv m' where m: "m = kv # m'" using assms(1) by (cases m) auto
  with assms(2) obtain c cs where "fst kv = c # cs" "is_key c"
    by (cases "fst kv") auto
  then have "\<exists>c s. join_with [0x0A] ?ls = c # s \<and> c \<noteq> 0xFEFF"
    unfolding m by (cases m') (auto simp: format_entry_def entry_of_def dest: key_not_bom)
  then have "strip_bom (join_with [0x0A] ?ls) = join_with [0x0A] ?ls"
    by (auto simp: strip_bom_def)
  then show ?thesis
    using split_lines_join[OF ne nl] by (simp add: file_lines_def format_env_def comp_def)
qed

lemma round_trip_entries:
  assumes "distinct (map fst m)"
    and "\<forall>kv \<in> set m. fst kv \<noteq> [] \<and> list_all is_key (fst kv) \<and> emitted_value (snd kv)"
  shows "Env (CreateFromContent localize (format_env (map entry_of m)) envFile None) = map entry_of m"
proof (cases "m = []")
  case True
  then show ?thesis
    by (simp add: format_env_def parser_defs matcher_defs)
next
  case False
  have "assignments (file_lines (format_env (map entry_of m))) = m"
    using file_lines_formatted[OF False assms(2)] assignments_formatted[OF assms(2)] by simp
  moreover have "foldl set_entry [] m = m"
    using foldl_set_entry_distinct[of "[]" m] assms(1) by simp
  ultimately show ?thesis
    by (simp add: Env_entries)
qed



text \<open>
  A value with a newline: \<open>K="a\nB=c"\<close> is stored with a newline before \<open>B=c\<close>, and is
  written back as the one line it came from.
\<close>

lemma round_trip_newline_value:
  "Env (CreateFromContent (\<lambda>f. f)
          (js ''K='' @ [0x22] @ js ''a'' @ [0x5C, 0x6E] @ js ''B=c'' @ [0x22]) [] None) =
     [\<lparr>name = js ''K'', val = js ''a'' @ [0x0A] @ js ''B=c''\<rparr>] \<and>
   format_env [\<lparr>name = js ''K'', val = js ''a'' @ [0x0A] @ js ''B=c''\<rparr>] =
     js ''K='' @ [0x22] @ js ''a'' @ [0x5C, 0x6E] @ js ''B=c'' @ [0x22]"
  by (simp add: parser_defs matcher_defs char_classes format_env_def format_entry_def
      quote_value_def)

text \<open>
  The same holds of a first parse with a baseline, when the names of the baseline are keys
  of the grammar and its values are such as the parser stores.
\<close>

lemma round_trip_baseline:
  assumes "\<forall>e \<in> set es. name e \<noteq> [] \<and> list_all is_key (name e) \<and> emitted_value (val e)"
  shows "Env (CreateFromContent localize'
          (format_env (Env (CreateFromContent localize content envFile (Some es)))) envFile' None) =
     Env (CreateFromContent localize content envFile (Some es))"
proof -
  define kvs where "kvs = baseline (Some es) @ assignments (file_lines content)"
  define m where "m = foldl set_entry [] kvs"
  have "(\<lambda>(key, v). \<lparr>name = key, val = v\<rparr>) = entry_of"
    by (auto simp: entry_of_def fun_eq_iff)
  then have es: "Env (CreateFromContent localize content envFile (Some es)) = map entry_of m"
    by (simp add: Env_CreateFromContent m_def kvs_def)
  have keys: "map fst m = first_seen (map fst kvs)"
    by (simp add: m_def foldl_set_entry_keys)
  then have d: "distinct (map fst m)"
    by (simp add: distinct_first_seen)
  have "fst kv \<noteq> [] \<and> list_all is_key (fst kv) \<and> emitted_value (snd kv)" if "kv \<in> set m" for kv
  proof -
    from that d have "map_of m (fst kv) = Some (snd kv)" by simp
    then have "map_of (rev kvs) (fst kv) = Some (snd kv)"
      by (simp add: m_def foldl_set_entry_map_of)
    then have "(fst kv, snd kv) \<in> set kvs"
      by (auto dest: map_of_SomeD)
    then have "(fst kv, snd kv) \<in> set (baseline (Some es)) \<or>
        (fst kv, snd kv) \<in> set (assignments (file_lines content))"
      by (simp add: kvs_def)
    then show ?thesis
    proof
      assume "(fst kv, snd kv) \<in> set (baseline (Some es))"
      then obtain e where "e \<in> set es" "fst kv = name e" "snd kv = val e"
        by (auto simp: baseline_def)
      with assms show ?thesis by simp
    next
      assume "(fst kv, snd kv) \<in> set (assignments (file_lines content))"
      then show ?thesis
        using assignments_keys assignments_values by blast
    qed
  qed
  then have "\<forall>kv \<in> set m. fst kv \<noteq> [] \<and> list_all is_key (fst kv) \<and> emitted_value (snd kv)"
    by blast
  with d show ?thesis
    unfolding es by (rule round_trip_entries)
qed

section \<open>Properties of the update orchestrator\<close>

subsection \<open>The update cycle\<close>

text \<open>
  Once the loop has been left within the iterations allowed, allowing more changes
  nothing.
\<close>

lemma download_loop_more_fuel:
  "download_loop fuel h b orig s = Some r \<Longrightarrow> download_loop (fuel + k) h b orig s = Some r"
proof (induction fuel arbitrary: s)
  case 0
  then show ?case by simp
next
  case (Suc fuel)
  let ?s = "wait h (s\<lparr>attempts := Suc (attempts s), trace := trace s @ [DownloadFile (downloadUrl b)]\<rparr>)"
  show ?case
  proof (cases "\<exists>e. download h (attempts s) = Rejected e \<and> orig = proxySupport ?s \<and>
      config_get h (proxySupport ?s) \<noteq> Some ''off'' \<and> orig \<noteq> Some ''off''")
    case True
    then have "download_loop (Suc fuel) h b orig s =
        download_loop fuel h b orig (config_update (Some ''off'') ?s)"
      and "download_loop (Suc (fuel + k)) h b orig s =
        download_loop (fuel + k) h b orig (config_update (Some ''off'') ?s)"
      by (auto simp: Let_def)
    with Suc show ?thesis by simp
  next
    case False
    then have "download_loop (Suc (fuel + k)) h b orig s = download_loop (Suc fuel) h b orig s"
      by (cases "download h (attempts s)") (auto simp: Let_def)
    with Suc.prems show ?thesis by simp
  qed
qed

lemma applyUpdate_body_more_fuel:
  "applyUpdate_body fuel h g b = Some r \<Longrightarrow> applyUpdate_body (fuel + k) h g b = Some r"
proof -
  assume a: "applyUpdate_body fuel h g b = Some r"
  show ?thesis
  proof (cases "tmp_file_err h")
    case True
    with a show ?thesis by (simp add: applyUpdate_body_def)
  next
    case False
    let ?s0 = "\<lparr>proxySupport = g, requested = [], awaits = 0, attempts = 0, trace = []\<rparr>"
    from a False obtain x where x: "download_loop fuel h b g ?s0 = Some x"
      by (cases "download_loop fuel h b g ?s0") (auto simp: applyUpdate_body_def)
    then have "download_loop (fuel + k) h b g ?s0 = Some x"
      by (rule download_loop_more_fuel)
    with a x False show ?thesis by (simp add: applyUpdate_body_def)
  qed
qed

text \<open>
  When every download fails, no write takes effect and the fallback is available, every
  iteration ends in \<open>continue\<close>.
\<close>

lemma download_loop_never_applied:
  assumes "\<And>n. \<exists>e. download h n = Rejected e" "\<And>n. writes_applied h n = 0"
    "config_get h orig \<noteq> Some ''off''" "orig \<noteq> Some ''off''" "proxySupport s = orig"
  shows "download_loop fuel h b orig s = None"
  using assms(5)
proof (induction fuel arbitrary: s)
  case 0
  then show ?case by simp
next
  case (Suc fuel)
  obtain e where e: "download h (attempts s) = Rejected e"
    using assms(1) by blast
  let ?s = "wait h (s\<lparr>attempts := Suc (attempts s), trace := trace s @ [DownloadFile (downloadUrl b)]\<rparr>)"
  have p: "proxySupport ?s = orig"
    using Suc.prems assms(2) by (simp add: wait_def)
  then have "proxySupport (config_update (Some ''off'') ?s) = orig"
    by (simp add: config_update_def)
  then have "download_loop fuel h b orig (config_update (Some ''off'') ?s) = None"
    by (rule Suc.IH)
  then show ?case
    using e p assms(3,4) by (simp add: Let_def)
qed

text \<open>
  When every wait lets at least one requested write take effect, the loop is left within
  two iterations.
\<close>

lemma download_loop_prompt_store:
  assumes "\<And>n. 0 < writes_applied h n" "requested s = []" "proxySupport s = orig"
  shows "\<exists>e s'. download_loop (Suc (Suc fuel)) h b orig s = Some (e, s') \<and>
     attempts s' \<le> attempts s + 2"
proof -
  let ?s1 = "wait h (s\<lparr>attempts := Suc (attempts s), trace := trace s @ [DownloadFile (downloadUrl b)]\<rparr>)"
  have s1: "proxySupport ?s1 = orig" "requested ?s1 = []" "attempts ?s1 = Suc (attempts s)"
    using assms(2,3) by (simp_all add: wait_def)
  show ?thesis
  proof (cases "download h (attempts s)")
    case Pending
    then show ?thesis using s1 by (simp add: Let_def)
  next
    case (Resolved u)
    then show ?thesis using s1 by (simp add: Let_def)
  next
    case (Rejected e)
    show ?thesis
    proof (cases "config_get h orig \<noteq> Some ''off'' \<and> orig \<noteq> Some ''off''")
      case False
      with Rejected s1 show ?thesis by (auto simp: Let_def)
    next
      case True
      let ?s2 = "config_update (Some ''off'') ?s1"
      let ?s3 = "wait h (?s2\<lparr>attempts := Suc (attempts ?s2),
          trace := trace ?s2 @ [DownloadFile (downloadUrl b)]\<rparr>)"
      have r: "requested ?s2 = [Some ''off'']" "attempts ?s2 = Suc (attempts s)"
        using s1 by (simp_all add: config_update_def)
      have "take (writes_applied h (awaits ?s2)) [Some ''off''] = [Some ''off'']"
        using assms(1)[of "awaits ?s2"] by (cases "writes_applied h (awaits ?s2)") simp_all
      then have s3: "proxySupport ?s3 = Some ''off''" "attempts ?s3 = Suc (Suc (attempts s))"
        using r by (simp_all add: wait_def Let_def)
      have first: "download_loop (Suc (Suc fuel)) h b orig s = download_loop (Suc fuel) h b orig ?s2"
        using Rejected True s1 by (simp add: Let_def)
      have "\<exists>e s'. download_loop (Suc fuel) h b orig ?s2 = Some (e, s') \<and>
          attempts s' \<le> Suc (Suc (attempts s))"
        using True s3 r
        by (cases "download h (attempts ?s2)") (auto simp: Let_def config_update_def)
      with first show ?thesis by simp
    qed
  qed
qed

text \<open>
  When \<open>installVsix\<close> is rejected with \<open>Error\<close> objects only, the handler of \<open>.catch\<close> returns
  and the promise of \<open>applyUpdate\<close> is not rejected.
\<close>

lemma applyUpdate_catches_errors:
  assumes "applyUpdate fuel h globalValue buildInfo = Some (p, s)"
    and "\<And>e. installVsix_result h = Rejected e \<Longrightarrow> \<exists>message. e = Error message"
  shows "p = Pending \<or> p = Resolved ()"
proof (cases "applyUpdate_body fuel h globalValue buildInfo")
  case None
  with assms(1) show ?thesis by (simp add: applyUpdate_def)
next
  case (Some r)
  obtain q t where r: "r = (q, t)" by (cases r)
  show ?thesis
  proof (cases q)
    case Pending
    with Some r assms(1) show ?thesis by (auto simp: applyUpdate_def)
  next
    case (Resolved u)
    with Some r assms(1) show ?thesis by (auto simp: applyUpdate_def)
  next
    case (Rejected e)
    have "\<exists>message. e = Error message"
      using Some r Rejected assms(2)
      by (auto simp: applyUpdate_body_def Let_def
          split: if_splits option.splits prod.splits loop_exit.splits promise.splits)
    then obtain message where "e = Error message" ..
    with Some r Rejected assms(1) show ?thesis
      by (auto simp: applyUpdate_def catch_handler_def)
  qed
qed

text \<open>
  Runs of a cycle on a host that applies each write during the next wait. With the
  setting at \<open>off\<close> a failed download is not retried; the failure is logged and the
  promise of \<open>applyUpdate\<close> is fulfilled.
\<close>

lemma applyUpdate_fallback_not_available:
  "applyUpdate (Suc fuel)
     \<lparr>tmp_file_err = False, download = (\<lambda>n. Rejected (Error ''ECONNREFUSED'')),
        config_get = (\<lambda>g. Some ''off''), writes_applied = (\<lambda>n. 1),
        installVsix_result = Resolved (), getTargetBuildInfo = (\<lambda>c. Resolved None)\<rparr>
     (Some ''off'') \<lparr>build_name = ''0.26.1'', downloadUrl = ''u''\<rparr> =
   Some (Resolved (),
     \<lparr>proxySupport = Some ''off'', requested = [], awaits = 1, attempts = 1,
        trace = [DownloadFile ''u'', Reject (Error ''Failed to download VSIX package''),
          ConsoleError ''C/C++: Install vsix -- Failed to download VSIX package'',
          LogEvent (Some ''Failed to download VSIX package'') False]\<rparr>)"
  by (simp add: applyUpdate_def applyUpdate_body_def catch_handler_def wait_def Let_def
      cppInstallVsixStr_def hide_pii_def)

text \<open>
  A failed installation is logged, with a message that holds a slash hidden from
  telemetry.
\<close>

lemma applyUpdate_install_fails:
  "applyUpdate (Suc fuel)
     \<lparr>tmp_file_err = False, download = (\<lambda>n. Resolved ()),
        config_get = (\<lambda>g. Some ''override''), writes_applied = (\<lambda>n. 1),
        installVsix_result = Rejected (Error ''ENOENT /usr/bin/code''),
        getTargetBuildInfo = (\<lambda>c. Resolved None)\<rparr>
     None \<lparr>build_name = ''0.26.1'', downloadUrl = ''u''\<rparr> =
   Some (Resolved (),
     \<lparr>proxySupport = None, requested = [], awaits = 2, attempts = 1,
        trace = [DownloadFile ''u'', InstallVsix, Reject (Error ''ENOENT /usr/bin/code''),
          ConsoleError ''C/C++: Install vsix -- ENOENT /usr/bin/code'',
          LogEvent (Some ''Potential PII hidden'') False]\<rparr>)"
  by (simp add: applyUpdate_def applyUpdate_body_def catch_handler_def wait_def Let_def
      cppInstallVsixStr_def hide_pii_def)

text \<open>
  No temporary file: nothing is downloaded.
\<close>

lemma applyUpdate_no_tmp_file:
  "applyUpdate fuel
     \<lparr>tmp_file_err = True, download = (\<lambda>n. Resolved ()),
        config_get = (\<lambda>g. Some ''override''), writes_applied = (\<lambda>n. 1),
        installVsix_result = Resolved (), getTargetBuildInfo = (\<lambda>c. Resolved None)\<rparr>
     None \<lparr>build_name = ''0.26.1'', downloadUrl = ''u''\<rparr> =
   Some (Resolved (),
     \<lparr>proxySupport = None, requested = [], awaits = 0, attempts = 0,
        trace = [Reject (Error ''Failed to create vsix file''),
          ConsoleError ''C/C++: Install vsix -- Failed to create vsix file'',
          LogEvent (Some ''Failed to create vsix file'') False]\<rparr>)"
  by (simp add: applyUpdate_def applyUpdate_body_def catch_handler_def Let_def
      cppInstallVsixStr_def hide_pii_def)

text \<open>
  A failed download and a successful retry: one change to \<open>off\<close>, and the write of the
  original value takes effect while the cycle waits for the installation.
\<close>

lemma applyUpdate_retry_succeeds:
  "applyUpdate (Suc (Suc fuel))
     \<lparr>tmp_file_err = False,
        download = (\<lambda>n. if n = 0 then Rejected (Error ''ECONNREFUSED'') else Resolved ()),
        config_get = (\<lambda>g. Some ''override''), writes_applied = (\<lambda>n. 1),
        installVsix_result = Resolved (), getTargetBuildInfo = (\<lambda>c. Resolved None)\<rparr>
     None \<lparr>build_name = ''0.26.1'', downloadUrl = ''u''\<rparr> =
   Some (Resolved (),
     \<lparr>proxySupport = None, requested = [], awaits = 3, attempts = 2,
        trace = [DownloadFile ''u'', ConfigUpdate (Some ''off''), DownloadFile ''u'',
          ConfigUpdate None, LogEvent (Some ''Success with proxySupport off'') True,
          InstallVsix, ClearInterval,
          PromptReloadWindow
            ''The C/C++ Extension has been updated to version 0.26.1. Please reload the window for the changes to take effect.'',
          LogEvent None True, ResolveVoid]\<rparr>)"
  by (simp add: applyUpdate_def applyUpdate_body_def wait_def config_update_def Let_def)

text \<open>
  \<open>checkAndApplyUpdate\<close> when there is no newer build, when the feed fails with an \<open>Error\<close>
  object, and when the cache holds a build, in which case the feed is not asked.
\<close>

lemma checkAndApplyUpdate_examples:
  "checkAndApplyUpdate fuel
     \<lparr>tmp_file_err = False, download = (\<lambda>n. Resolved ()),
        config_get = (\<lambda>g. Some ''override''), writes_applied = (\<lambda>n. 1),
        installVsix_result = Resolved (), getTargetBuildInfo = (\<lambda>c. Resolved None)\<rparr>
     None None (Some ''Insiders'') = Some (Resolved (), None, []) \<and>
   checkAndApplyUpdate fuel
     \<lparr>tmp_file_err = False, download = (\<lambda>n. Resolved ()),
        config_get = (\<lambda>g. Some ''override''), writes_applied = (\<lambda>n. 1),
        installVsix_result = Resolved (),
        getTargetBuildInfo = (\<lambda>c. Rejected (Error ''rate limit''))\<rparr>
     None None (Some ''Insiders'') =
     Some (Resolved (), None, [LogEvent (Some ''rate limit'') False]) \<and>
   checkAndApplyUpdate (Suc fuel)
     \<lparr>tmp_file_err = False, download = (\<lambda>n. Resolved ()),
        config_get = (\<lambda>g. Some ''override''), writes_applied = (\<lambda>n. 1),
        installVsix_result = Resolved (),
        getTargetBuildInfo = (\<lambda>c. Rejected (Error ''rate limit''))\<rparr>
     None (Some \<lparr>build_name = ''0.26.1'', downloadUrl = ''u''\<rparr>) None =
     Some (Resolved (), None,
       [DownloadFile ''u'', InstallVsix, ClearInterval,
        PromptReloadWindow
          ''The C/C++ Extension has been updated to version 0.26.1. Please reload the window for the changes to take effect.'',
        LogEvent None True, ResolveVoid])"
  by (simp add: checkAndApplyUpdate_def applyUpdate_def applyUpdate_body_def wait_def Let_def)

text \<open>
  Claim C4 says that a failed download is retried exactly once, after the single change
  of \<open>http.proxySupport\<close> to \<open>off\<close>, and that the setting is back at its original value
  before the outcome is reported. The cycle does not wait for \<open>config.update\<close>: a write
  that it requests can take effect only once the cycle is suspended. Below, the user has
  not set \<open>http.proxySupport\<close> (its user-level value is \<open>undefined\<close>) and \<open>config.get\<close> returns
  the default, so the fallback is available. When both downloads fail on a host that
  applies each write during the next wait, the promise is rejected while \<open>off\<close> is in
  effect and the write of the original value is only requested. When every download
  fails and the writes take effect only during the third download, there are three
  downloads and two changes to \<open>off\<close>. When the first download fails, the second succeeds
  and the write takes effect only during the installation, no write of the original
  value is ever requested and the cycle ends in success with \<open>off\<close> in effect. When no
  write ever takes effect and every download fails, the loop is not left, however many
  iterations it is given. In the first three cases the result is the same for every
  larger number of iterations allowed.
\<close>

theorem C4_config_update_not_awaited:
  "applyUpdate_body (Suc (Suc fuel))
     \<lparr>tmp_file_err = False, download = (\<lambda>n. Rejected (Error ''ECONNREFUSED'')),
        config_get = (\<lambda>g. Some ''override''),
        writes_applied = (\<lambda>n. 1),
        installVsix_result = Resolved (), getTargetBuildInfo = (\<lambda>c. Resolved None)\<rparr>
     None \<lparr>build_name = ''0.26.1'', downloadUrl = ''u''\<rparr> =
   Some (Rejected (Error ''Failed to download VSIX package with proxySupport off''),
     \<lparr>proxySupport = Some ''off'', requested = [None], awaits = 2, attempts = 2,
        trace =
          [DownloadFile ''u'', ConfigUpdate (Some ''off''),
           DownloadFile ''u'', ConfigUpdate None,
           Reject (Error ''Failed to download VSIX package with proxySupport off'')]\<rparr>) \<and>
   applyUpdate_body (Suc (Suc (Suc fuel)))
     \<lparr>tmp_file_err = False, download = (\<lambda>n. Rejected (Error ''ECONNREFUSED'')),
        config_get = (\<lambda>g. Some ''override''),
        writes_applied = (\<lambda>n. if n = 2 then 2 else 0),
        installVsix_result = Resolved (), getTargetBuildInfo = (\<lambda>c. Resolved None)\<rparr>
     None \<lparr>build_name = ''0.26.1'', downloadUrl = ''u''\<rparr> =
   Some (Rejected (Error ''Failed to download VSIX package with proxySupport off''),
     \<lparr>proxySupport = Some ''off'', requested = [None], awaits = 3, attempts = 3,
        trace =
          [DownloadFile ''u'', ConfigUpdate (Some ''off''),
           DownloadFile ''u'', ConfigUpdate (Some ''off''),
           DownloadFile ''u'', ConfigUpdate None,
           Reject (Error ''Failed to download VSIX package with proxySupport off'')]\<rparr>) \<and>
   applyUpdate_body (Suc (Suc fuel))
     \<lparr>tmp_file_err = False,
        download = (\<lambda>n. if n = 0 then Rejected (Error ''ECONNREFUSED'') else Resolved ()),
        config_get = (\<lambda>g. Some ''override''),
        writes_applied = (\<lambda>n. if n = 2 then 1 else 0),
        installVsix_result = Resolved (), getTargetBuildInfo = (\<lambda>c. Resolved None)\<rparr>
     None \<lparr>build_name = ''0.26.1'', downloadUrl = ''u''\<rparr> =
   Some (Resolved (),
     \<lparr>proxySupport = Some ''off'', requested = [], awaits = 3, attempts = 2,
        trace =
          [DownloadFile ''u'', ConfigUpdate (Some ''off''), DownloadFile ''u'',
           InstallVsix, ClearInterval,
           PromptReloadWindow
             ''The C/C++ Extension has been updated to version 0.26.1. Please reload the window for the changes to take effect.'',
           LogEvent None True, ResolveVoid]\<rparr>) \<and>
   applyUpdate_body fuel
     \<lparr>tmp_file_err = False, download = (\<lambda>n. Rejected (Error ''ECONNREFUSED'')),
        config_get = (\<lambda>g. Some ''override''),
        writes_applied = (\<lambda>n. 0),
        installVsix_result = Resolved (), getTargetBuildInfo = (\<lambda>c. Resolved None)\<rparr>
     None \<lparr>build_name = ''0.26.1'', downloadUrl = ''u''\<rparr> = None"
proof -
  have n: "download_loop fuel
     \<lparr>tmp_file_err = False, download = (\<lambda>n. Rejected (Error ''ECONNREFUSED'')),
        config_get = (\<lambda>g. Some ''override''),
        writes_applied = (\<lambda>n. 0),
        installVsix_result = Resolved (), getTargetBuildInfo = (\<lambda>c. Resolved None)\<rparr>
     \<lparr>build_name = ''0.26.1'', downloadUrl = ''u''\<rparr> None
     \<lparr>proxySupport = None, requested = [], awaits = 0, attempts = 0, trace = []\<rparr> = None"
    by (rule download_loop_never_applied) simp_all
  show ?thesis
    by (simp add: applyUpdate_body_def n)
      (simp add: wait_def config_update_def Let_def)
qed

text \<open>
  Claim C6 says that the promises of \<open>applyUpdate\<close> and \<open>checkAndApplyUpdate\<close> are never
  rejected. The handlers read \<open>error.message\<close> of whatever value they are given. When
  \<open>installVsix\<close> is rejected with \<open>undefined\<close>, the handler of \<open>.catch\<close> throws before it has
  logged anything, the promise of \<open>applyUpdate\<close> is rejected with the \<open>TypeError\<close>, and so
  is the promise of \<open>checkAndApplyUpdate\<close>, which awaits it outside any \<open>try\<close>. When
  \<open>installVsix\<close> is rejected with a value that has no message, the handler throws at
  \<open>indexOf\<close>, after \<open>console.error\<close>. When \<open>getTargetBuildInfo\<close> is rejected with
  \<open>undefined\<close>, the \<open>catch\<close> block of \<open>checkAndApplyUpdate\<close> throws likewise.
\<close>

theorem C6_handler_throws:
  "applyUpdate (Suc fuel)
     \<lparr>tmp_file_err = False, download = (\<lambda>n. Resolved ()),
        config_get = (\<lambda>g. Some ''override''), writes_applied = (\<lambda>n. 1),
        installVsix_result = Rejected Undefined,
        getTargetBuildInfo = (\<lambda>c. Resolved (Some \<lparr>build_name = ''0.26.1'', downloadUrl = ''u''\<rparr>))\<rparr>
     None \<lparr>build_name = ''0.26.1'', downloadUrl = ''u''\<rparr> =
   Some (Rejected (TypeError ''message''),
     \<lparr>proxySupport = None, requested = [], awaits = 2, attempts = 1,
        trace = [DownloadFile ''u'', InstallVsix, Reject Undefined]\<rparr>) \<and>
   checkAndApplyUpdate (Suc fuel)
     \<lparr>tmp_file_err = False, download = (\<lambda>n. Resolved ()),
        config_get = (\<lambda>g. Some ''override''), writes_applied = (\<lambda>n. 1),
        installVsix_result = Rejected Undefined,
        getTargetBuildInfo = (\<lambda>c. Resolved (Some \<lparr>build_name = ''0.26.1'', downloadUrl = ''u''\<rparr>))\<rparr>
     None None (Some ''Insiders'') =
   Some (Rejected (TypeError ''message''), None,
     [DownloadFile ''u'', InstallVsix, Reject Undefined]) \<and>
   applyUpdate (Suc fuel)
     \<lparr>tmp_file_err = False, download = (\<lambda>n. Resolved ()),
        config_get = (\<lambda>g. Some ''override''), writes_applied = (\<lambda>n. 1),
        installVsix_result = Rejected NoMessage,
        getTargetBuildInfo = (\<lambda>c. Resolved None)\<rparr>
     None \<lparr>build_name = ''0.26.1'', downloadUrl = ''u''\<rparr> =
   Some (Rejected (TypeError ''indexOf''),
     \<lparr>proxySupport = None, requested = [], awaits = 2, attempts = 1,
        trace = [DownloadFile ''u'', InstallVsix, Reject NoMessage,
          ConsoleError ''C/C++: Install vsix -- undefined'']\<rparr>) \<and>
   checkAndApplyUpdate fuel
     \<lparr>tmp_file_err = False, download = (\<lambda>n. Resolved ()),
        config_get = (\<lambda>g. Some ''override''), writes_applied = (\<lambda>n. 1),
        installVsix_result = Resolved (),
        getTargetBuildInfo = (\<lambda>c. Rejected Undefined)\<rparr>
     None None (Some ''Insiders'') =
   Some (Rejected (TypeError ''message''), None, [])"
  by (simp add: checkAndApplyUpdate_def applyUpdate_def applyUpdate_body_def catch_handler_def
      wait_def Let_def cppInstallVsixStr_def)

subsection \<open>The installation\<close>

lemma settle_settled: "outcome s \<noteq> Pending \<Longrightarrow> settle p s = s"
  by (simp add: settle_def)

lemma exit_code_outcome_kept:
  "outcome s \<noteq> Pending \<Longrightarrow> outcome (foldl on_event_exit_code s evs) = outcome s"
proof (induction evs arbitrary: s)
  case Nil
  then show ?case by simp
next
  case (Cons ev evs)
  from Cons.prems have "outcome (on_event_exit_code s ev) = outcome s"
    by (cases ev) (simp_all add: on_event_exit_code_def on_timeout_def settle_def)
  with Cons show ?case by simp
qed

lemma exit_code_killed_kept:
  "killed s \<or> \<not> timer s \<Longrightarrow> killed (foldl on_event_exit_code s evs) = killed s"
proof (induction evs arbitrary: s)
  case Nil
  then show ?case by simp
next
  case (Cons ev evs)
  from Cons.prems have a: "killed (on_event_exit_code s ev) = killed s"
    and b: "killed (on_event_exit_code s ev) \<or> \<not> timer (on_event_exit_code s ev)"
    by (cases ev; auto simp: on_event_exit_code_def on_timeout_def settle_def)+
  from Cons.IH[OF b] a show ?case by simp
qed

lemma exit_code_run:
  assumes "outcome s = Pending" "timer s" "listening s"
  shows "outcome (foldl on_event_exit_code s evs) =
           (case find (\<lambda>ev. ev \<noteq> StdoutData) evs of
              None \<Rightarrow> Pending
            | Some Timeout \<Rightarrow> Rejected NoResponseWithin30s
            | Some (Exit code) \<Rightarrow>
                if code = Some 0 then Resolved () else Rejected (ExitedWithCode code)
            | Some StdoutData \<Rightarrow> Pending) \<and>
         (find (\<lambda>ev. ev \<noteq> StdoutData) evs = Some Timeout \<longrightarrow>
            killed (foldl on_event_exit_code s evs))"
  using assms
proof (induction evs arbitrary: s)
  case Nil
  then show ?case by simp
next
  case (Cons ev evs)
  show ?case
  proof (cases ev)
    case StdoutData
    then have "on_event_exit_code s ev = s" by (simp add: on_event_exit_code_def)
    with Cons StdoutData show ?thesis by simp
  next
    case Timeout
    let ?s = "on_event_exit_code s ev"
    from Timeout Cons.prems have "outcome ?s = Rejected NoResponseWithin30s" "killed ?s"
      by (simp_all add: on_event_exit_code_def on_timeout_def settle_def)
    then show ?thesis
      using Timeout exit_code_outcome_kept[of ?s evs] exit_code_killed_kept[of ?s evs] by simp
  next
    case (Exit code)
    let ?s = "on_event_exit_code s ev"
    from Exit Cons.prems have
      "outcome ?s = (if code = Some 0 then Resolved () else Rejected (ExitedWithCode code))"
      by (simp add: on_event_exit_code_def settle_def)
    then show ?thesis
      using Exit exit_code_outcome_kept[of ?s evs] by simp
  qed
qed

lemma std_streams_outcome_kept:
  "outcome s \<noteq> Pending \<Longrightarrow> outcome (foldl on_event_std_streams s evs) = outcome s"
proof (induction evs arbitrary: s)
  case Nil
  then show ?case by simp
next
  case (Cons ev evs)
  from Cons.prems have "outcome (on_event_std_streams s ev) = outcome s"
    by (cases ev) (simp_all add: on_event_std_streams_def on_timeout_def settle_def)
  with Cons show ?case by simp
qed

lemma std_streams_killed_kept:
  "killed s \<Longrightarrow> killed (foldl on_event_std_streams s evs)"
proof (induction evs arbitrary: s)
  case Nil
  then show ?case by simp
next
  case (Cons ev evs)
  from Cons.prems have "killed (on_event_std_streams s ev)"
    by (cases ev) (auto simp: on_event_std_streams_def on_timeout_def settle_def)
  with Cons.IH show ?case by simp
qed

lemma std_streams_stdin_kept:
  "sentOverride s \<Longrightarrow> stdin (foldl on_event_std_streams s evs) = stdin s"
proof (induction evs arbitrary: s)
  case Nil
  then show ?case by simp
next
  case (Cons ev evs)
  from Cons.prems have a: "stdin (on_event_std_streams s ev) = stdin s"
    and b: "sentOverride (on_event_std_streams s ev)"
    by (cases ev; auto simp: on_event_std_streams_def on_timeout_def settle_def)+
  from Cons.IH[OF b] a show ?case by simp
qed

lemma std_streams_run:
  assumes "outcome s = Pending" "timer s" "listening s" "\<not> sentOverride s" "stdin s = []"
  shows "outcome (foldl on_event_std_streams s evs) =
           (case find (\<lambda>ev. ev = StdoutData \<or> ev = Timeout) evs of
              None \<Rightarrow> Pending
            | Some Timeout \<Rightarrow> Rejected NoResponseWithin30s
            | Some StdoutData \<Rightarrow> Resolved ()
            | Some (Exit code) \<Rightarrow> Pending) \<and>
         (find (\<lambda>ev. ev = StdoutData \<or> ev = Timeout) evs = Some Timeout \<longrightarrow>
            killed (foldl on_event_std_streams s evs)) \<and>
         (find (\<lambda>ev. ev = StdoutData \<or> ev = Timeout) evs = Some StdoutData \<longrightarrow>
            stdin (foldl on_event_std_streams s evs) = [''0'' @ [CHR 0x0A]])"
  using assms
proof (induction evs arbitrary: s)
  case Nil
  then show ?case by simp
next
  case (Cons ev evs)
  show ?case
  proof (cases ev)
    case (Exit code)
    then have "on_event_std_streams s ev = s" by (simp add: on_event_std_streams_def)
    with Cons Exit show ?thesis by simp
  next
    case Timeout
    let ?s = "on_event_std_streams s ev"
    from Timeout Cons.prems have "outcome ?s = Rejected NoResponseWithin30s" "killed ?s"
      by (simp_all add: on_event_std_streams_def on_timeout_def settle_def)
    then show ?thesis
      using Timeout std_streams_outcome_kept[of ?s evs] std_streams_killed_kept[of ?s evs] by simp
  next
    case StdoutData
    let ?s = "on_event_std_streams s ev"
    from StdoutData Cons.prems have "outcome ?s = Resolved ()" "sentOverride ?s"
      "stdin ?s = [''0'' @ [CHR 0x0A]]"
      by (simp_all add: on_event_std_streams_def settle_def)
    then show ?thesis
      using StdoutData std_streams_outcome_kept[of ?s evs] std_streams_stdin_kept[of ?s evs] by simp
  qed
qed

lemma find_decisive_exit_code:
  "newer_than_1_27_2 h \<Longrightarrow> find (decisive h) evs = find (\<lambda>ev. ev \<noteq> StdoutData) evs"
  by (rule find_cong) (auto simp: decisive_def split: event.splits)

lemma find_decisive_std_streams:
  "\<not> newer_than_1_27_2 h \<Longrightarrow>
   find (decisive h) evs = find (\<lambda>ev. ev = StdoutData \<or> ev = Timeout) evs"
  by (rule find_cong) (auto simp: decisive_def split: event.splits)

lemma find_decisive_Timeout:
  "Timeout \<in> set evs \<Longrightarrow> find (decisive h) evs \<noteq> None"
  by (auto simp: find_None_iff decisive_def)

lemma installVsix_spawned:
  assumes "\<not> newer_than_1_32_3 h" "platformInformation h = Resolved ()"
    "vsCodeScriptPath h = Some path" "spawned h = Spawned"
  shows "outcome (installVsix h evs) = decision (find (decisive h) evs) \<and>
     (find (decisive h) evs = Some Timeout \<longrightarrow> killed (installVsix h evs)) \<and>
     (find (decisive h) evs = Some StdoutData \<longrightarrow> stdin (installVsix h evs) = [''0'' @ [CHR 0x0A]])"
proof (cases "newer_than_1_27_2 h")
  case True
  let ?s = "idle\<lparr>timer := True, listening := True\<rparr>"
  have r: "installVsix h evs = foldl on_event_exit_code ?s evs"
    using assms True by (simp add: installVsix_def launch_exit_code_def)
  have "find (\<lambda>ev. ev \<noteq> StdoutData) evs \<noteq> Some StdoutData"
    by (auto simp: find_Some_iff)
  then show ?thesis
    using exit_code_run[of ?s evs]
    unfolding r find_decisive_exit_code[OF True] decision_def
    by (auto simp: idle_def split: option.splits event.splits)
next
  case False
  let ?s = "idle\<lparr>timer := True, listening := True\<rparr>"
  have r: "installVsix h evs = foldl on_event_std_streams ?s evs"
    using assms False by (simp add: installVsix_def launch_std_streams_def)
  have "find (\<lambda>ev. ev = StdoutData \<or> ev = Timeout) evs \<noteq> Some (Exit code)" for code
    by (auto simp: find_Some_iff)
  then show ?thesis
    using std_streams_run[of ?s evs]
    unfolding r find_decisive_std_streams[OF False] decision_def
    by (auto simp: idle_def split: option.splits event.splits)
qed

lemma installVsix_not_spawned:
  assumes "\<not> newer_than_1_32_3 h" "platformInformation h = Resolved ()"
    "vsCodeScriptPath h = Some path" "spawned h \<noteq> Spawned"
  shows "outcome (installVsix h evs) = Rejected FailedToLaunch"
proof (cases "newer_than_1_27_2 h")
  case True
  have "outcome (launch_exit_code (spawned h)) = Rejected FailedToLaunch"
    using assms(4) by (cases "spawned h") (simp_all add: launch_exit_code_def settle_def idle_def)
  then show ?thesis
    using assms True exit_code_outcome_kept[of "launch_exit_code (spawned h)" evs]
    by (simp add: installVsix_def)
next
  case False
  have "outcome (launch_std_streams (spawned h)) = Rejected FailedToLaunch"
    using assms(4) by (cases "spawned h") (simp_all add: launch_std_streams_def settle_def idle_def)
  then show ?thesis
    using assms False std_streams_outcome_kept[of "launch_std_streams (spawned h)" evs]
    by (simp add: installVsix_def)
qed

text \<open>
  Claim C5, as amended. On a host newer than 1.32.3 \<open>installVsix\<close> returns the promise of
  the host command \<open>workbench.extensions.installExtension\<close>, whatever happens afterwards:
  no process is spawned, no timer is set, nothing is killed and nothing is written. On
  a host of version at most 1.32.3, once the platform information has arrived,
  \<open>installVsix\<close> is settled by the time the 30 second timer has fired: it is rejected when
  the script is not found or not launched; otherwise the first decisive event settles
  it. When that is the timer, the process is killed and the promise is rejected. On
  hosts newer than 1.27.2 it is fulfilled exactly when the process exits with status
  zero before the timer; on the older hosts, which talk over the standard streams,
  exactly when the process writes to its standard output before the timer, whereupon
  the confirmation \<open>0\<close> and a newline are written to its standard input, whether or not
  the process exits.
\<close>

theorem C5_bounded_install:
  "(newer_than_1_32_3 h \<longrightarrow>
      installVsix h evs = idle\<lparr>outcome := map_error HostError (installExtension h)\<rparr>) \<and>
   (\<not> newer_than_1_32_3 h \<and> platformInformation h \<noteq> Pending \<longrightarrow>
     (let r = installVsix h evs; d = find (decisive h) evs in
        (Timeout \<in> set evs \<longrightarrow> outcome r \<noteq> Pending) \<and>
        (platformInformation h = Resolved () \<and> vsCodeScriptPath h = None \<longrightarrow>
           outcome r = Rejected FailedToFindScript) \<and>
        (platformInformation h = Resolved () \<and> vsCodeScriptPath h \<noteq> None \<and>
         spawned h \<noteq> Spawned \<longrightarrow>
           outcome r = Rejected FailedToLaunch) \<and>
        (platformInformation h = Resolved () \<and> vsCodeScriptPath h \<noteq> None \<and>
         spawned h = Spawned \<longrightarrow>
           outcome r = decision d \<and>
           (d = Some Timeout \<longrightarrow> killed r) \<and>
           (d = Some StdoutData \<longrightarrow> stdin r = [''0'' @ [CHR 0x0A]]))))"
proof (intro conjI)
  show "newer_than_1_32_3 h \<longrightarrow>
      installVsix h evs = idle\<lparr>outcome := map_error HostError (installExtension h)\<rparr>"
    by (simp add: installVsix_def)
next
  show "\<not> newer_than_1_32_3 h \<and> platformInformation h \<noteq> Pending \<longrightarrow>
     (let r = installVsix h evs; d = find (decisive h) evs in
        (Timeout \<in> set evs \<longrightarrow> outcome r \<noteq> Pending) \<and>
        (platformInformation h = Resolved () \<and> vsCodeScriptPath h = None \<longrightarrow>
           outcome r = Rejected FailedToFindScript) \<and>
        (platformInformation h = Resolved () \<and> vsCodeScriptPath h \<noteq> None \<and>
         spawned h \<noteq> Spawned \<longrightarrow>
           outcome r = Rejected FailedToLaunch) \<and>
        (platformInformation h = Resolved () \<and> vsCodeScriptPath h \<noteq> None \<and>
         spawned h = Spawned \<longrightarrow>
           outcome r = decision d \<and>
           (d = Some Timeout \<longrightarrow> killed r) \<and>
           (d = Some StdoutData \<longrightarrow> stdin r = [''0'' @ [CHR 0x0A]])))"
  proof
    assume a: "\<not> newer_than_1_32_3 h \<and> platformInformation h \<noteq> Pending"
    show "let r = installVsix h evs; d = find (decisive h) evs in
        (Timeout \<in> set evs \<longrightarrow> outcome r \<noteq> Pending) \<and>
        (platformInformation h = Resolved () \<and> vsCodeScriptPath h = None \<longrightarrow>
           outcome r = Rejected FailedToFindScript) \<and>
        (platformInformation h = Resolved () \<and> vsCodeScriptPath h \<noteq> None \<and>
         spawned h \<noteq> Spawned \<longrightarrow>
           outcome r = Rejected FailedToLaunch) \<and>
        (platformInformation h = Resolved () \<and> vsCodeScriptPath h \<noteq> None \<and>
         spawned h = Spawned \<longrightarrow>
           outcome r = decision d \<and>
           (d = Some Timeout \<longrightarrow> killed r) \<and>
           (d = Some StdoutData \<longrightarrow> stdin r = [''0'' @ [CHR 0x0A]]))"
    proof (cases "platformInformation h")
      case Pending
      with a show ?thesis by simp
    next
      case (Rejected e)
      with a show ?thesis by (simp add: installVsix_def idle_def)
    next
      case (Resolved u)
      show ?thesis
      proof (cases "vsCodeScriptPath h")
        case None
        with a Resolved show ?thesis by (simp add: installVsix_def idle_def)
      next
        case (Some path)
        show ?thesis
        proof (cases "spawned h = Spawned")
          case True
          have "decision (find (decisive h) evs) \<noteq> Pending" if "Timeout \<in> set evs"
            using find_decisive_Timeout[OF that, of h]
            by (auto simp: decision_def split: option.splits event.splits)
          then show ?thesis
            using installVsix_spawned[of h path evs] a Resolved Some True by (simp add: Let_def)
        next
          case False
          then show ?thesis
            using installVsix_not_spawned[of h path evs] a Resolved Some by (simp add: Let_def)
        qed
      qed
    qed
  qed
qed

theorem C5_bounded_install_witness:
  "outcome (installVsix
      \<lparr>newer_than_1_32_3 = False, newer_than_1_27_2 = True, installExtension = Pending,
         platformInformation = Resolved (), vsCodeScriptPath = Some ''/usr/bin/code'',
         spawned = Spawned\<rparr>
      [StdoutData, Timeout, Exit None]) = Rejected NoResponseWithin30s \<and>
   killed (installVsix
      \<lparr>newer_than_1_32_3 = False, newer_than_1_27_2 = True, installExtension = Pending,
         platformInformation = Resolved (), vsCodeScriptPath = Some ''/usr/bin/code'',
         spawned = Spawned\<rparr>
      [StdoutData, Timeout, Exit None]) \<and>
   installVsix
      \<lparr>newer_than_1_32_3 = True, newer_than_1_27_2 = True,
         installExtension = Rejected ''not a valid VSIX'',
         platformInformation = Resolved (), vsCodeScriptPath = Some ''/usr/bin/code'',
         spawned = Spawned\<rparr>
      [Exit (Some 0), Timeout] =
     \<lparr>outcome = Rejected (HostError ''not a valid VSIX''), timer = False, listening = False,
        killed = False, sentOverride = False, stdin = []\<rparr>"
proof -
  let ?h = "\<lparr>newer_than_1_32_3 = False, newer_than_1_27_2 = True, installExtension = Pending,
         platformInformation = Resolved (), vsCodeScriptPath = Some ''/usr/bin/code'',
         spawned = Spawned\<rparr>"
  let ?n = "\<lparr>newer_than_1_32_3 = True, newer_than_1_27_2 = True,
         installExtension = Rejected ''not a valid VSIX'',
         platformInformation = Resolved (), vsCodeScriptPath = Some ''/usr/bin/code'',
         spawned = Spawned\<rparr>"
  have d: "find (decisive ?h) [StdoutData, Timeout, Exit None] = Some Timeout"
    by (simp add: decisive_def)
  have "\<not> newer_than_1_32_3 ?h \<and> platformInformation ?h \<noteq> Pending"
    by simp
  with C5_bounded_install[of ?h "[StdoutData, Timeout, Exit None]"]
  have old: "outcome (installVsix ?h [StdoutData, Timeout, Exit None]) = Rejected NoResponseWithin30s \<and>
      killed (installVsix ?h [StdoutData, Timeout, Exit None])"
    unfolding Let_def d by (simp add: decision_def)
  have "newer_than_1_32_3 ?n"
    by simp
  with C5_bounded_install[of ?n "[Exit (Some 0), Timeout]"]
  have "installVsix ?n [Exit (Some 0), Timeout] =
      idle\<lparr>outcome := map_error HostError (installExtension ?n)\<rparr>"
    by blast
  then have "installVsix ?n [Exit (Some 0), Timeout] =
     \<lparr>outcome = Rejected (HostError ''not a valid VSIX''), timer = False, listening = False,
        killed = False, sentOverride = False, stdin = []\<rparr>"
    by (simp add: idle_def map_error_def)
  with old show ?thesis
    by simp
qed

text \<open>
  The claim as it was stated fails on a host newer than 1.32.3: with the host command
  pending, the promise is still pending after the 30 seconds; and with the host command
  fulfilled, the promise is fulfilled with no exit status and no output observed.
\<close>

theorem C5_bounded_install_counterexample:
  "outcome (installVsix
      \<lparr>newer_than_1_32_3 = True, newer_than_1_27_2 = True, installExtension = Pending,
         platformInformation = Resolved (), vsCodeScriptPath = Some ''/usr/bin/code'',
         spawned = Spawned\<rparr>
      [Timeout]) = Pending \<and>
   outcome (installVsix
      \<lparr>newer_than_1_32_3 = True, newer_than_1_27_2 = True, installExtension = Resolved (),
         platformInformation = Resolved (), vsCodeScriptPath = Some ''/usr/bin/code'',
         spawned = Spawned\<rparr>
      []) = Resolved ()"
  by (simp add: installVsix_def map_error_def idle_def)

text \<open>
  Claim C7 says that every tick of the timer calls \<open>checkAndApplyUpdate\<close> with the active
  channel. The timer that \<open>realActivation\<close> sets does; the one that
  \<open>onDidChangeSettings\<close> sets is given no argument, so after a change of the setting to
  \<open>Insiders\<close> the first check has the channel and every tick calls
  \<open>checkAndApplyUpdate\<close> with \<open>undefined\<close>.
\<close>

theorem C7_timer_without_channel:
  "checks (tick (onDidChangeSettings (Some ''Insiders'') (realActivation ''Default'' startup))) =
     [Some ''Insiders'', None] \<and>
   checks (tick (realActivation ''Insiders'' startup)) = [Some ''Insiders'', Some ''Insiders'']"
  by (simp add: tick_def onDidChangeSettings_def realActivation_def startup_def setInterval_def
      call_checkAndApplyUpdate_def)

end
